theory Spec2Isabelle
  imports Complex_Main
begin

section \<open>JavaScript numbers\<close>

text \<open>
  A JavaScript \<^verbatim>\<open>number\<close> is an IEEE double. The model keeps the special values
  the source can meet (\<^verbatim>\<open>NaN\<close>, \<^verbatim>\<open>Infinity\<close>, \<^verbatim>\<open>-Infinity\<close>) and takes every
  finite value as an exact real: the operations of this section do not round, and
  the sign of zero is not modelled. Rounding is defined in the next section; what it
  does to the deadlines the scheduler accumulates is settled there and under C2.
  Equality of the datatype is \<^verbatim>\<open>Object.is\<close> (React's comparison of dependencies),
  under which \<^verbatim>\<open>NaN\<close> equals itself.
\<close>

datatype number = Finite real | PosInfinity | NegInfinity | NaN

text \<open>\<^verbatim>\<open>a < b\<close>: false whenever an operand is \<^verbatim>\<open>NaN\<close>.\<close>

fun js_lt :: "number \<Rightarrow> number \<Rightarrow> bool" where
  "js_lt NaN _ = False"
| "js_lt _ NaN = False"
| "js_lt (Finite a) (Finite b) = (a < b)"
| "js_lt (Finite _) PosInfinity = True"
| "js_lt (Finite _) NegInfinity = False"
| "js_lt PosInfinity _ = False"
| "js_lt NegInfinity NegInfinity = False"
| "js_lt NegInfinity _ = True"

text \<open>\<^verbatim>\<open>a + b\<close>.\<close>

fun js_add :: "number \<Rightarrow> number \<Rightarrow> number" where
  "js_add NaN _ = NaN"
| "js_add _ NaN = NaN"
| "js_add (Finite a) (Finite b) = Finite (a + b)"
| "js_add PosInfinity NegInfinity = NaN"
| "js_add NegInfinity PosInfinity = NaN"
| "js_add PosInfinity _ = PosInfinity"
| "js_add NegInfinity _ = NegInfinity"
| "js_add (Finite _) b = b"

text \<open>\<^verbatim>\<open>a - b\<close>.\<close>

fun js_neg :: "number \<Rightarrow> number" where
  "js_neg (Finite a) = Finite (- a)"
| "js_neg PosInfinity = NegInfinity"
| "js_neg NegInfinity = PosInfinity"
| "js_neg NaN = NaN"

definition js_sub :: "number \<Rightarrow> number \<Rightarrow> number" where
  "js_sub a b = js_add a (js_neg b)"

text \<open>
  \<^verbatim>\<open>a / b\<close>. A finite value over zero is an infinity in JavaScript (not \<open>0\<close> as
  in HOL); the zero is taken as \<^verbatim>\<open>+0\<close>.
\<close>

fun js_div :: "number \<Rightarrow> number \<Rightarrow> number" where
  "js_div NaN _ = NaN"
| "js_div _ NaN = NaN"
| "js_div (Finite a) (Finite b) =
     (if b \<noteq> 0 then Finite (a / b)
      else if a = 0 then NaN
      else if 0 < a then PosInfinity else NegInfinity)"
| "js_div (Finite _) _ = Finite 0"
| "js_div PosInfinity (Finite b) = (if b < 0 then NegInfinity else PosInfinity)"
| "js_div NegInfinity (Finite b) = (if b < 0 then PosInfinity else NegInfinity)"
| "js_div _ _ = NaN"

text \<open>\<^verbatim>\<open>Math.min(a, b)\<close> and \<^verbatim>\<open>Math.max(a, b)\<close>: \<^verbatim>\<open>NaN\<close> if an argument is.\<close>

fun Math_min :: "number \<Rightarrow> number \<Rightarrow> number" where
  "Math_min NaN _ = NaN"
| "Math_min _ NaN = NaN"
| "Math_min a b = (if js_lt b a then b else a)"

fun Math_max :: "number \<Rightarrow> number \<Rightarrow> number" where
  "Math_max NaN _ = NaN"
| "Math_max _ NaN = NaN"
| "Math_max a b = (if js_lt a b then b else a)"

section \<open>Rounding to doubles\<close>

text \<open>
  The machine's result of an arithmetic operation on doubles is the exact result
  rounded to the nearest double, a tie going to the even significand (IEEE 754,
  binary64: 53 significant bits, exponents from \<open>-1022\<close> to \<open>1023\<close>, subnormal
  values below, an infinity from \<open>2 ^ 1024\<close> on). \<open>rne\<close> rounds a real to the nearest
  integer, ties to even; \<open>binade a\<close> is the exponent \<open>e\<close> with
  \<open>2 ^ e \<le> a < 2 ^ (e + 1)\<close>, but not less than \<open>-1022\<close>; \<open>fl x\<close> is the double
  nearest to \<open>x\<close>; \<open>rounded\<close> is \<open>fl\<close> on the finite values of the type.
\<close>

definition rne :: "real \<Rightarrow> int" where
  "rne x = (let f = \<lfloor>x\<rfloor>; r = x - of_int f
            in if r < 1 / 2 then f else if 1 / 2 < r then f + 1
               else if even f then f else f + 1)"

function binade :: "real \<Rightarrow> int" where
  "binade a = (if 2 \<le> a then binade (a / 2) + 1
               else if 2 powi (- 1022) \<le> a \<and> a < 1 then binade (a * 2) - 1
               else if a < 1 then - 1022 else 0)"
  by auto

termination
proof (relation "measure (\<lambda>a. if 1 \<le> a then nat \<lfloor>log 2 a\<rfloor> else nat \<lceil>- log 2 a\<rceil>)")
  show "wf (measure (\<lambda>a. if 1 \<le> a then nat \<lfloor>log 2 a\<rfloor> else nat \<lceil>- log 2 a\<rceil>))"
    by simp
next
  fix a :: real
  assume a: "2 \<le> a"
  then have "log 2 (a / 2) = log 2 a - 1" by (simp add: log_divide)
  moreover from a have "1 \<le> log 2 a" by (simp add: le_log_iff)
  then have "1 \<le> \<lfloor>log 2 a\<rfloor>" by linarith
  ultimately show "(a / 2, a) \<in>
      measure (\<lambda>a. if 1 \<le> a then nat \<lfloor>log 2 a\<rfloor> else nat \<lceil>- log 2 a\<rceil>)"
    using a by simp
next
  fix a :: real
  assume "\<not> 2 \<le> a" and b: "2 powi (- 1022) \<le> a \<and> a < 1"
  have "(0 :: real) < 2 powi (- 1022)" by simp
  with b have p: "0 < a" by linarith
  then have l: "log 2 (a * 2) = log 2 a + 1" by (simp add: log_mult)
  from p b have n: "log 2 a < 0" by simp
  then have c: "1 \<le> \<lceil>- log 2 a\<rceil>" by linarith
  show "(a * 2, a) \<in>
      measure (\<lambda>a. if 1 \<le> a then nat \<lfloor>log 2 a\<rfloor> else nat \<lceil>- log 2 a\<rceil>)"
  proof (cases "1 \<le> a * 2")
    case True
    from True have "0 \<le> log 2 (a * 2)" by simp
    moreover from l n have "log 2 (a * 2) < 1" by simp
    ultimately have "\<lfloor>log 2 (a * 2)\<rfloor> = 0" by linarith
    with True b c show ?thesis by simp
  next
    case False
    have "- log 2 (a * 2) = - log 2 a - 1" unfolding l by simp
    then have "\<lceil>- log 2 (a * 2)\<rceil> = \<lceil>- log 2 a\<rceil> - 1" by (simp only: ceiling_diff_one)
    with False b c show ?thesis by simp
  qed
qed

declare binade.simps [simp del]

definition fl :: "real \<Rightarrow> number" where
  "fl x = (if x = 0 then Finite 0
           else let u = 2 powi (binade \<bar>x\<bar> - 52); r = of_int (rne (x / u)) * u
                in if 2 ^ 1024 \<le> \<bar>r\<bar> then (if 0 < x then PosInfinity else NegInfinity)
                   else Finite r)"

definition rounded :: "number \<Rightarrow> number" where
  "rounded a = (case a of Finite x \<Rightarrow> fl x | _ \<Rightarrow> a)"

section \<open>The component's state\<close>

text \<open>
  What \<^verbatim>\<open>playTick\<close> hands to the audio graph: the oscillator's frequency and the
  gain. What \<^verbatim>\<open>speakBeatNumber\<close> hands to \<^verbatim>\<open>speechSynthesis.speak\<close>: the utterance,
  whose text is the decimal form of \<^verbatim>\<open>beatNumber + 1\<close> (kept as that number). The
  speech interface is taken to exist, so the \<^verbatim>\<open>catch\<close> branch is not entered.
\<close>

record tone =
  frequency :: real
  gain :: number

record utterance =
  spokenNumber :: nat
  lang :: string
  rate :: real
  uttVolume :: number
  pitch :: real

text \<open>
  One entry of the log per iteration of the scheduler's loop: the argument of
  \<^verbatim>\<open>playTick\<close> and what it produced, what \<^verbatim>\<open>speakBeatNumber\<close> produced, the
  argument of \<^verbatim>\<open>setCurrentBeat\<close>, and \<^verbatim>\<open>nextNoteTimeRef.current\<close> as the loop's
  test read it (the beat's deadline).
\<close>

record beat =
  tickAccent :: bool
  ticked :: "tone option"
  spoken :: "utterance option"
  published :: nat
  due :: number

text \<open>
  The state: the six \<^verbatim>\<open>useState\<close> values, the six \<^verbatim>\<open>useRef\<close> cells (the audio
  context only as present or \<^verbatim>\<open>null\<close>), the window's armed timeouts (each the
  \<^verbatim>\<open>scheduler\<close> of one render, which closes over that render's \<^verbatim>\<open>bpm\<close> and
  \<^verbatim>\<open>beatsPerMeasure\<close>), the utterances queued in \<^verbatim>\<open>speechSynthesis\<close> and not yet
  spoken, and the log of emitted beats.
\<close>

record state =
  bpm :: number
  isPlaying :: bool
  currentBeat :: nat
  beatsPerMeasure :: nat
  volume :: number
  voiceEnabled :: bool
  audioContextRef :: bool
  nextNoteTimeRef :: number
  timerIdRef :: "nat option"
  currentBeatRef :: nat
  volumeRef :: number
  voiceEnabledRef :: bool
  timeouts :: "(nat \<times> number \<times> nat) list"
  nextTimerId :: nat
  speechQueue :: "utterance list"
  emitted :: "beat list"

section \<open>The window's timers and speech queue\<close>

text \<open>
  \<^verbatim>\<open>timerIdRef.current = window.setTimeout(scheduler, 25)\<close>: arms the scheduler of the
  render whose \<^verbatim>\<open>bpm\<close> and \<^verbatim>\<open>beatsPerMeasure\<close> are given, and stores the handle.
\<close>

definition setTimeout_scheduler :: "number \<Rightarrow> nat \<Rightarrow> state \<Rightarrow> state" where
  "setTimeout_scheduler b m s =
     s\<lparr>timeouts := timeouts s @ [(nextTimerId s, b, m)],
       timerIdRef := Some (nextTimerId s),
       nextTimerId := Suc (nextTimerId s)\<rparr>"

definition clearTimeout :: "nat \<Rightarrow> state \<Rightarrow> state" where
  "clearTimeout i s = s\<lparr>timeouts := filter (\<lambda>t. fst t \<noteq> i) (timeouts s)\<rparr>"

text \<open>\<^verbatim>\<open>window.speechSynthesis.cancel()\<close> removes every queued utterance.\<close>

definition speechCancel :: "state \<Rightarrow> state" where
  "speechCancel s = s\<lparr>speechQueue := []\<rparr>"

section \<open>Emitting a beat\<close>

definition playTick :: "bool \<Rightarrow> state \<Rightarrow> tone option" where
  "playTick isAccent s =
     (if \<not> audioContextRef s then None
      else Some \<lparr>frequency = (if isAccent then 1000 else 800), gain = volumeRef s\<rparr>)"

definition speakBeatNumber :: "nat \<Rightarrow> state \<Rightarrow> utterance option" where
  "speakBeatNumber beatNumber s =
     (if \<not> voiceEnabledRef s then None
      else Some \<lparr>spokenNumber = beatNumber + 1, lang = ''zh-CN'', rate = 2,
                 uttVolume = volumeRef s,
                 pitch = (if beatNumber = 0 then 13 / 10 else 1)\<rparr>)"

text \<open>
  The body of the \<^verbatim>\<open>while\<close> loop, for the scheduler of a render with tempo \<open>b\<close> and
  meter \<open>m\<close>. The beat indices are natural numbers. A meter is one of the buttons'
  values, never \<open>0\<close>, where \<^verbatim>\<open>%\<close> would give \<^verbatim>\<open>NaN\<close> and \<open>mod\<close> does not.
\<close>

definition loop_body :: "number \<Rightarrow> nat \<Rightarrow> state \<Rightarrow> state" where
  "loop_body b m s =
     (let isAccent = (currentBeatRef s = 0);
          t = playTick isAccent s;
          u = speakBeatNumber (currentBeatRef s) s;
          secondsPerBeat = js_div (Finite 60) b
      in s\<lparr>emitted := emitted s @
               [\<lparr>tickAccent = isAccent, ticked = t, spoken = u,
                 published = currentBeatRef s, due = nextNoteTimeRef s\<rparr>],
             speechQueue := speechQueue s @ (case u of None \<Rightarrow> [] | Some x \<Rightarrow> [x]),
             currentBeat := currentBeatRef s,
             currentBeatRef := (currentBeatRef s + 1) mod m,
             nextNoteTimeRef := js_add (nextNoteTimeRef s) secondsPerBeat\<rparr>)"

text \<open>
  The loop itself, for the clock reading \<open>now\<close>. It need not end (a tempo of
  \<^verbatim>\<open>Infinity\<close> adds \<open>0\<close> for ever): not returning is the value \<open>None\<close>.
\<close>

partial_function (option) scheduler_loop :: "number \<Rightarrow> nat \<Rightarrow> real \<Rightarrow> state \<Rightarrow> state option" where
  "scheduler_loop b m now s =
     (if js_lt (nextNoteTimeRef s) (js_add (Finite now) (Finite (1 / 10)))
      then scheduler_loop b m now (loop_body b m s)
      else Some s)"

declare scheduler_loop.simps [code]

definition scheduler :: "number \<Rightarrow> nat \<Rightarrow> real \<Rightarrow> state \<Rightarrow> state option" where
  "scheduler b m now s =
     (if \<not> audioContextRef s then Some s
      else map_option (setTimeout_scheduler b m) (scheduler_loop b m now s))"

section \<open>The start/stop effect\<close>

text \<open>
  \<^verbatim>\<open>if (timerIdRef.current)\<close>: a handle is truthy unless it is \<^verbatim>\<open>null\<close> or \<open>0\<close>.
\<close>

definition timerId_truthy :: "state \<Rightarrow> bool" where
  "timerId_truthy s = (case timerIdRef s of None \<Rightarrow> False | Some i \<Rightarrow> i \<noteq> 0)"

text \<open>The function the effect returns, run before the effect runs again.\<close>

definition startStopCleanup :: "state \<Rightarrow> state" where
  "startStopCleanup s =
     speechCancel (if timerId_truthy s then clearTimeout (the (timerIdRef s)) s else s)"

text \<open>The branch of the effect for \<^verbatim>\<open>isPlaying\<close>, at the clock reading \<open>now\<close>.\<close>

definition effect_playing :: "real \<Rightarrow> state \<Rightarrow> state option" where
  "effect_playing now s =
     (let s1 = (if audioContextRef s then s\<lparr>nextNoteTimeRef := Finite now\<rparr> else s);
          s2 = s1\<lparr>currentBeatRef := 0\<rparr>;
          s3 = s2\<lparr>currentBeat := 0\<rparr>
      in scheduler (bpm s) (beatsPerMeasure s) now s3)"

text \<open>The other branch.\<close>

definition effect_stopped :: "state \<Rightarrow> state" where
  "effect_stopped s =
     (let s1 = (if timerId_truthy s
                then (clearTimeout (the (timerIdRef s)) s)\<lparr>timerIdRef := None\<rparr> else s);
          s2 = speechCancel s1;
          s3 = s2\<lparr>currentBeat := 0\<rparr>
      in s3\<lparr>currentBeatRef := 0\<rparr>)"

definition startStopEffect :: "real \<Rightarrow> state \<Rightarrow> state option" where
  "startStopEffect now s = (if isPlaying s then effect_playing now s else Some (effect_stopped s))"

section \<open>Rendering\<close>

text \<open>The two effects that keep the refs in sync with the state.\<close>

definition volumeEffect :: "state \<Rightarrow> state" where
  "volumeEffect s = s\<lparr>volumeRef := volume s\<rparr>"

definition voiceEffect :: "state \<Rightarrow> state" where
  "voiceEffect s = s\<lparr>voiceEnabledRef := voiceEnabled s\<rparr>"

text \<open>
  After an event handler has set new \<^verbatim>\<open>useState\<close> values, React renders and runs
  the effects whose dependencies changed: first the cleanup of the start/stop effect
  (dependencies \<^verbatim>\<open>[isPlaying, bpm, beatsPerMeasure]\<close>), then, in the order of their
  declaration, the effects for \<^verbatim>\<open>[volume]\<close> and \<^verbatim>\<open>[voiceEnabled]\<close> and the
  start/stop effect. The handler, the render and the effects are one step: no timer
  fires between them. \<open>old\<close> is the state before the handler, \<open>new\<close> the state the
  handler left.
\<close>

definition deps_changed :: "state \<Rightarrow> state \<Rightarrow> bool" where
  "deps_changed old new =
     (isPlaying new \<noteq> isPlaying old \<or> bpm new \<noteq> bpm old \<or>
      beatsPerMeasure new \<noteq> beatsPerMeasure old)"

definition commit :: "state \<Rightarrow> state \<Rightarrow> real \<Rightarrow> state option" where
  "commit old new now =
     (let s1 = (if deps_changed old new then startStopCleanup new else new);
          s2 = (if volume new \<noteq> volume old then volumeEffect s1 else s1);
          s3 = (if voiceEnabled new \<noteq> voiceEnabled old then voiceEffect s2 else s2)
      in if deps_changed old new then startStopEffect now s3 else Some s3)"

text \<open>
  The first render: the initial values of \<^verbatim>\<open>useState\<close> and \<^verbatim>\<open>useRef\<close>, then every
  effect once, the audio context being created before the start/stop effect runs.
  The component is mounted once and stays mounted, and the constructor of the audio
  context is taken to succeed.
\<close>

definition initial :: state where
  "initial =
     \<lparr>bpm = Finite 120, isPlaying = False, currentBeat = 0, beatsPerMeasure = 4,
      volume = Finite (1 / 2), voiceEnabled = False,
      audioContextRef = False, nextNoteTimeRef = Finite 0, timerIdRef = None,
      currentBeatRef = 0, volumeRef = Finite (1 / 2), voiceEnabledRef = False,
      timeouts = [], nextTimerId = 1, speechQueue = [], emitted = []\<rparr>"

definition mount :: "real \<Rightarrow> state option" where
  "mount now =
     (let s1 = volumeEffect initial;
          s2 = voiceEffect s1;
          s3 = s2\<lparr>audioContextRef := True\<rparr>
      in startStopEffect now s3)"

section \<open>Event handlers\<close>

definition handleBpmChange :: "number \<Rightarrow> state \<Rightarrow> state" where
  "handleBpmChange newBpm s =
     (let clampedBpm = Math_max (Finite 40) (Math_min (Finite 240) newBpm)
      in s\<lparr>bpm := clampedBpm\<rparr>)"

text \<open>
  The events: the clicks and inputs of the controls, a timeout of the window firing,
  and the speech engine taking the utterance at the head of its queue. The slider
  hands \<^verbatim>\<open>parseInt(e.target.value)\<close> to \<^verbatim>\<open>handleBpmChange\<close> and the volume input
  \<^verbatim>\<open>parseFloat(e.target.value)\<close> to \<^verbatim>\<open>setVolume\<close>. The value of a range input is
  always the decimal form of a number within its bounds, so neither is \<^verbatim>\<open>NaN\<close> in a
  browser; the events nevertheless carry any value of the type, and a property that
  depends on the slider's value says which values it is about.
\<close>

datatype event =
    ClickPlayPause
  | ClickMinus
  | ClickPlus
  | SliderInput number
  | ClickPreset number
  | ClickMeter nat
  | VolumeInput number
  | ClickVoice
  | TimerFire nat
  | SpeechDone

definition presets :: "number list" where
  "presets = [Finite 60, Finite 90, Finite 120, Finite 140, Finite 180]"

definition meters :: "nat list" where
  "meters = [2, 3, 4, 5, 6]"

text \<open>
  What a control's handler leaves in the \<^verbatim>\<open>useState\<close> values. The two events of
  the window have no handler.
\<close>

fun handler :: "event \<Rightarrow> state \<Rightarrow> state" where
  "handler ClickPlayPause s = s\<lparr>isPlaying := \<not> isPlaying s\<rparr>"
| "handler ClickMinus s = handleBpmChange (js_sub (bpm s) (Finite 1)) s"
| "handler ClickPlus s = handleBpmChange (js_add (bpm s) (Finite 1)) s"
| "handler (SliderInput v) s = handleBpmChange v s"
| "handler (ClickPreset presetBpm) s = handleBpmChange presetBpm s"
| "handler (ClickMeter beats) s = (s\<lparr>beatsPerMeasure := beats\<rparr>)\<lparr>currentBeat := 0\<rparr>"
| "handler (VolumeInput v) s = s\<lparr>volume := v\<rparr>"
| "handler ClickVoice s = s\<lparr>voiceEnabled := \<not> voiceEnabled s\<rparr>"
| "handler _ s = s"

text \<open>
  One step of the component at the clock reading \<open>now\<close>
  (\<^verbatim>\<open>audioContext.currentTime\<close>). A timeout that fires leaves the window's list and
  runs the scheduler it holds; a handle that is not armed fires nothing.
\<close>

fun step :: "event \<Rightarrow> real \<Rightarrow> state \<Rightarrow> state option" where
  "step (TimerFire i) now s =
     (case map_of (timeouts s) i of
        None \<Rightarrow> Some s
      | Some (b, m) \<Rightarrow> scheduler b m now (clearTimeout i s))"
| "step SpeechDone now s = Some (s\<lparr>speechQueue := tl (speechQueue s)\<rparr>)"
| "step e now s = commit s (handler e s) now"

text \<open>
  The events the page can deliver in a state: the preset and meter buttons exist for
  the listed values only, and only an armed timeout fires.
\<close>

fun offered :: "event \<Rightarrow> state \<Rightarrow> bool" where
  "offered (ClickPreset presetBpm) s = (presetBpm \<in> set presets)"
| "offered (ClickMeter beats) s = (beats \<in> set meters)"
| "offered (TimerFire i) s = (i \<in> fst ` set (timeouts s))"
| "offered SpeechDone s = (speechQueue s \<noteq> [])"
| "offered _ s = True"

text \<open>
  A run: events with their clock readings, one after the other. There is no run
  through an event the page cannot deliver, or through a step that does not return.
\<close>

fun run :: "(event \<times> real) list \<Rightarrow> state \<Rightarrow> state option" where
  "run [] s = Some s"
| "run ((e, now) # es) s =
     (if offered e s
      then (case step e now s of None \<Rightarrow> None | Some s' \<Rightarrow> run es s')
      else None)"

text \<open>
  A run within one session: no step of it changes a dependency of the start/stop
  effect (\<^verbatim>\<open>isPlaying\<close>, \<^verbatim>\<open>bpm\<close>, \<^verbatim>\<open>beatsPerMeasure\<close>), so the effect does not run.
\<close>

fun session :: "(event \<times> real) list \<Rightarrow> state \<Rightarrow> state option" where
  "session [] s = Some s"
| "session ((e, now) # es) s =
     (if offered e s
      then (case step e now s of
              None \<Rightarrow> None
            | Some s' \<Rightarrow> if deps_changed s s' then None else session es s')
      else None)"

inductive reachable :: "state \<Rightarrow> bool" where
  mounted: "mount now = Some s \<Longrightarrow> reachable s"
| stepped: "reachable s \<Longrightarrow> offered e s \<Longrightarrow> step e now s = Some s' \<Longrightarrow> reachable s'"

section \<open>Notions the properties are stated with\<close>

text \<open>A tempo in the range of the control surface, \<open>[40, 240]\<close>.\<close>

definition in_tempo_range :: "number \<Rightarrow> bool" where
  "in_tempo_range b = (case b of Finite t \<Rightarrow> 40 \<le> t \<and> t \<le> 240 | _ \<Rightarrow> False)"

text \<open>
  What holds of every state the page can reach (lemma \<open>reachable_wellformed\<close>): the
  audio context exists, the refs mirror their state values, the meter is one of the
  buttons', both beat indices are below the meter, the tempo is in range or \<^verbatim>\<open>NaN\<close>
  (the clamp hands \<^verbatim>\<open>NaN\<close> on, see the section on clamping), the deadline is finite
  or \<^verbatim>\<open>NaN\<close>, and the window holds exactly the one timeout of the current render's
  scheduler while playing, none otherwise.
\<close>

definition tempo_ok :: "number \<Rightarrow> bool" where
  "tempo_ok b = (b = NaN \<or> in_tempo_range b)"

definition deadline_ok :: "number \<Rightarrow> bool" where
  "deadline_ok d = (case d of Finite _ \<Rightarrow> True | NaN \<Rightarrow> True | _ \<Rightarrow> False)"

definition timers_ok :: "state \<Rightarrow> bool" where
  "timers_ok s =
     (if isPlaying s
      then (case timerIdRef s of None \<Rightarrow> False
            | Some i \<Rightarrow> 0 < i \<and> timeouts s = [(i, bpm s, beatsPerMeasure s)])
      else timeouts s = [] \<and> timerIdRef s = None)"

definition wellformed :: "state \<Rightarrow> bool" where
  "wellformed s =
     (audioContextRef s \<and> volumeRef s = volume s \<and> voiceEnabledRef s = voiceEnabled s \<and>
      beatsPerMeasure s \<in> set meters \<and> currentBeatRef s < beatsPerMeasure s \<and>
      currentBeat s < beatsPerMeasure s \<and> tempo_ok (bpm s) \<and>
      deadline_ok (nextNoteTimeRef s) \<and> 0 < nextTimerId s \<and> timers_ok s)"

definition refs_kept :: "state \<Rightarrow> state \<Rightarrow> bool" where
  "refs_kept s new =
     (audioContextRef new = audioContextRef s \<and> nextNoteTimeRef new = nextNoteTimeRef s \<and>
      timerIdRef new = timerIdRef s \<and> currentBeatRef new = currentBeatRef s \<and>
      volumeRef new = volumeRef s \<and> voiceEnabledRef new = voiceEnabledRef s \<and>
      timeouts new = timeouts s \<and> nextTimerId new = nextTimerId s \<and>
      speechQueue new = speechQueue s \<and> emitted new = emitted s)"

text \<open>
  The three outcomes of a render, as lemma \<open>commit_eq\<close> derives them for a
  well-formed state: the refs brought in sync; the state in which a restarted
  scheduler enters its loop at the clock reading \<open>now\<close>; the state the effect leaves
  when the metronome is not playing.
\<close>

definition synced :: "state \<Rightarrow> state" where
  "synced new = new\<lparr>volumeRef := volume new, voiceEnabledRef := voiceEnabled new\<rparr>"

definition restart_state :: "real \<Rightarrow> state \<Rightarrow> state" where
  "restart_state now new =
     new\<lparr>timeouts := [], speechQueue := [], volumeRef := volume new,
         voiceEnabledRef := voiceEnabled new, nextNoteTimeRef := Finite now,
         currentBeatRef := 0, currentBeat := 0\<rparr>"

definition stopped_state :: "state \<Rightarrow> state" where
  "stopped_state new =
     new\<lparr>volumeRef := volume new, voiceEnabledRef := voiceEnabled new,
         timerIdRef := None, timeouts := [], speechQueue := [],
         currentBeat := 0, currentBeatRef := 0\<rparr>"

text \<open>The entry the loop's body logs in state \<open>s\<close> for the cursor \<open>(k, d)\<close>.\<close>

definition beat_of :: "state \<Rightarrow> nat \<Rightarrow> number \<Rightarrow> beat" where
  "beat_of s k d =
     \<lparr>tickAccent = (k = 0), ticked = playTick (k = 0) s, spoken = speakBeatNumber k s,
      published = k, due = d\<rparr>"

text \<open>
  The scheduler cursor of a state, the cursor a logged beat was emitted at, and what
  one iteration of the loop does to a cursor.
\<close>

definition cursor :: "state \<Rightarrow> nat \<times> number" where
  "cursor s = (currentBeatRef s, nextNoteTimeRef s)"

definition cursor_at :: "beat \<Rightarrow> nat \<times> number" where
  "cursor_at z = (published z, due z)"

definition advance :: "number \<Rightarrow> nat \<Rightarrow> nat \<times> number \<Rightarrow> nat \<times> number" where
  "advance b m c = ((fst c + 1) mod m, js_add (snd c) (js_div (Finite 60) b))"

text \<open>
  The deadline that follows the deadline \<open>d\<close> at the tempo \<open>b\<close>
  (\<^verbatim>\<open>secondsPerBeat = 60.0 / bpm\<close>, \<^verbatim>\<open>nextNoteTimeRef.current += secondsPerBeat\<close>): in
  the arithmetic of the model, and with the quotient and the sum each rounded to a
  double, as the machine computes them. \<open>loop_body_double\<close> is the body of the loop
  with the deadline so rounded; it differs from \<open>loop_body\<close> in nothing else.
\<close>

definition next_deadline :: "number \<Rightarrow> number \<Rightarrow> number" where
  "next_deadline b d = js_add d (js_div (Finite 60) b)"

definition next_deadline_double :: "number \<Rightarrow> number \<Rightarrow> number" where
  "next_deadline_double b d = rounded (js_add d (rounded (js_div (Finite 60) b)))"

definition loop_body_double :: "number \<Rightarrow> nat \<Rightarrow> state \<Rightarrow> state" where
  "loop_body_double b m s =
     (loop_body b m s)\<lparr>nextNoteTimeRef := next_deadline_double b (nextNoteTimeRef s)\<rparr>"

text \<open>
  The accent of a logged beat: the flag given to \<^verbatim>\<open>playTick\<close>, the frequency of the
  tone and the pitch of the utterance all say whether the published index is \<open>0\<close>.
\<close>

definition accent_ok :: "beat \<Rightarrow> bool" where
  "accent_ok z =
     (tickAccent z = (published z = 0) \<and>
      (case ticked z of None \<Rightarrow> False
       | Some t \<Rightarrow> frequency t = (if published z = 0 then 1000 else 800)) \<and>
      (case spoken z of None \<Rightarrow> True
       | Some u \<Rightarrow> pitch u = (if published z = 0 then 13 / 10 else 1) \<and>
                  spokenNumber u = published z + 1))"

text \<open>
  A logged beat uses the volume \<open>v\<close> and the voice flag \<open>e\<close>: the tone has gain \<open>v\<close>,
  and there is an utterance, of volume \<open>v\<close>, exactly if \<open>e\<close> holds.
\<close>

definition uses_settings :: "number \<Rightarrow> bool \<Rightarrow> beat \<Rightarrow> bool" where
  "uses_settings v e z =
     ((case ticked z of None \<Rightarrow> False | Some t \<Rightarrow> gain t = v) \<and>
      (case spoken z of None \<Rightarrow> \<not> e | Some u \<Rightarrow> e \<and> uttVolume u = v))"

text \<open>The state after the first render (lemma \<open>mount_state\<close>).\<close>

definition mounted :: state where
  "mounted = initial\<lparr>audioContextRef := True\<rparr>"

text \<open>
  A list of successive cursors advances for the meter \<open>m\<close>: each index is the one
  before plus one, modulo \<open>m\<close>, and no deadline is less than the one before.
\<close>

fun advancing :: "nat \<Rightarrow> (nat \<times> number) list \<Rightarrow> bool" where
  "advancing m (c1 # c2 # cs) =
     (fst c2 = (fst c1 + 1) mod m \<and> \<not> js_lt (snd c2) (snd c1) \<and> advancing m (c2 # cs))"
| "advancing m _ = True"

text \<open>A number that is neither \<^verbatim>\<open>NaN\<close> nor an infinity.\<close>

definition is_finite :: "number \<Rightarrow> bool" where
  "is_finite d = (case d of Finite _ \<Rightarrow> True | _ \<Rightarrow> False)"

text \<open>The first \<open>n\<close> cursors of the loop iterated from the cursor \<open>c\<close>.\<close>

definition iterates :: "number \<Rightarrow> nat \<Rightarrow> nat \<times> number \<Rightarrow> nat \<Rightarrow> (nat \<times> number) list" where
  "iterates b m c n = map (\<lambda>j. (advance b m ^^ j) c) [0..<n]"

text \<open>
  Of the beats emitted after some point, the first, if there is one, has index \<open>0\<close>
  and was given to \<^verbatim>\<open>playTick\<close> as accented.
\<close>

definition starts_measure :: "beat list \<Rightarrow> bool" where
  "starts_measure new = (case new of [] \<Rightarrow> True | b # _ \<Rightarrow> published b = 0 \<and> tickAccent b)"

section \<open>The loop\<close>

lemma loop_body_frame [simp]:
  "bpm (loop_body b m s) = bpm s"
  "isPlaying (loop_body b m s) = isPlaying s"
  "beatsPerMeasure (loop_body b m s) = beatsPerMeasure s"
  "volume (loop_body b m s) = volume s"
  "voiceEnabled (loop_body b m s) = voiceEnabled s"
  "audioContextRef (loop_body b m s) = audioContextRef s"
  "timerIdRef (loop_body b m s) = timerIdRef s"
  "volumeRef (loop_body b m s) = volumeRef s"
  "voiceEnabledRef (loop_body b m s) = voiceEnabledRef s"
  "timeouts (loop_body b m s) = timeouts s"
  "nextTimerId (loop_body b m s) = nextTimerId s"
  by (simp_all add: loop_body_def Let_def)

lemma loop_body_cursor [simp]:
  "currentBeatRef (loop_body b m s) = (currentBeatRef s + 1) mod m"
  "currentBeat (loop_body b m s) = currentBeatRef s"
  "nextNoteTimeRef (loop_body b m s) = js_add (nextNoteTimeRef s) (js_div (Finite 60) b)"
  by (simp_all add: loop_body_def Let_def)

lemma loop_iter_frame [simp]:
  "bpm ((loop_body b m ^^ n) s) = bpm s"
  "isPlaying ((loop_body b m ^^ n) s) = isPlaying s"
  "beatsPerMeasure ((loop_body b m ^^ n) s) = beatsPerMeasure s"
  "volume ((loop_body b m ^^ n) s) = volume s"
  "voiceEnabled ((loop_body b m ^^ n) s) = voiceEnabled s"
  "audioContextRef ((loop_body b m ^^ n) s) = audioContextRef s"
  "timerIdRef ((loop_body b m ^^ n) s) = timerIdRef s"
  "volumeRef ((loop_body b m ^^ n) s) = volumeRef s"
  "voiceEnabledRef ((loop_body b m ^^ n) s) = voiceEnabledRef s"
  "timeouts ((loop_body b m ^^ n) s) = timeouts s"
  "nextTimerId ((loop_body b m ^^ n) s) = nextTimerId s"
  by (induction n; simp)+

text \<open>Whatever the loop returns is the body iterated some number of times.\<close>

lemma scheduler_loop_iterates:
  assumes "scheduler_loop b m now s = Some s'"
  shows "\<exists>n. s' = (loop_body b m ^^ n) s"
  using assms
proof (induction rule: scheduler_loop.raw_induct[rotated, consumes 1])
  case (1 f b m now s s')
  show ?case
  proof (cases "js_lt (nextNoteTimeRef s) (js_add (Finite now) (Finite (1 / 10)))")
    case True
    with 1 obtain n where "s' = (loop_body b m ^^ n) (loop_body b m s)" by fastforce
    then have "s' = (loop_body b m ^^ Suc n) s" by (simp add: funpow_swap1)
    then show ?thesis by blast
  next
    case False
    with 1 have "s' = (loop_body b m ^^ 0) s" by simp
    then show ?thesis by blast
  qed
qed

lemma loop_iter_deadline:
  "nextNoteTimeRef s = Finite d \<Longrightarrow> js_div (Finite 60) b = Finite p \<Longrightarrow>
   nextNoteTimeRef ((loop_body b m ^^ n) s) = Finite (d + real n * p)"
  by (induction n) (simp_all add: algebra_simps)

lemma loop_iter_index:
  "currentBeatRef s < m \<Longrightarrow>
   currentBeatRef ((loop_body b m ^^ n) s) = (currentBeatRef s + n) mod m"
  by (induction n) (simp_all add: mod_Suc_eq)

text \<open>
  With a positive finite interval \<open>p\<close> and a finite deadline \<open>d\<close> the loop ends: the
  measure is the number of intervals that fit below the horizon \<open>now + 0.1\<close>.
\<close>

lemma scheduler_loop_finite:
  assumes p: "0 < p" "js_div (Finite 60) b = Finite p"
  shows "nextNoteTimeRef s = Finite d \<Longrightarrow>
    \<exists>n. scheduler_loop b m now s = Some ((loop_body b m ^^ n) s) \<and>
        \<not> d + real n * p < now + 1 / 10 \<and> (\<forall>j<n. d + real j * p < now + 1 / 10)"
proof (induction "nat \<lceil>(now + 1 / 10 - d) / p\<rceil>" arbitrary: s d rule: less_induct)
  case less
  show ?case
  proof (cases "d < now + 1 / 10")
    case False
    then have "scheduler_loop b m now s = Some ((loop_body b m ^^ 0) s)"
      using less.prems by (subst scheduler_loop.simps) simp
    with False show ?thesis by (intro exI[of _ 0]) simp
  next
    case True
    let ?s = "loop_body b m s"
    have d': "nextNoteTimeRef ?s = Finite (d + p)"
      using less.prems p by simp
    have "(now + 1 / 10 - (d + p)) / p = (now + 1 / 10 - d) / p - 1"
      using p(1) by (simp add: field_simps)
    moreover have "0 < (now + 1 / 10 - d) / p" using True p(1) by simp
    ultimately have "nat \<lceil>(now + 1 / 10 - (d + p)) / p\<rceil> < nat \<lceil>(now + 1 / 10 - d) / p\<rceil>"
      by simp
    from less.hyps[OF this d'] obtain n where
      n: "scheduler_loop b m now ?s = Some ((loop_body b m ^^ n) ?s)"
         "\<not> d + p + real n * p < now + 1 / 10"
         "\<forall>j<n. d + p + real j * p < now + 1 / 10" by blast
    have "scheduler_loop b m now s = Some ((loop_body b m ^^ Suc n) s)"
      using True less.prems n(1) by (subst scheduler_loop.simps) (simp add: funpow_swap1)
    moreover have "\<not> d + real (Suc n) * p < now + 1 / 10"
      using n(2) by (simp add: algebra_simps)
    moreover have "\<forall>j<Suc n. d + real j * p < now + 1 / 10"
    proof (intro allI impI)
      fix j assume "j < Suc n"
      show "d + real j * p < now + 1 / 10"
      proof (cases j)
        case 0 then show ?thesis using True by simp
      next
        case (Suc k)
        with \<open>j < Suc n\<close> n(3) have "d + p + real k * p < now + 1 / 10" by simp
        with Suc show ?thesis by (simp add: algebra_simps)
      qed
    qed
    ultimately show ?thesis by blast
  qed
qed

section \<open>Well-formed states\<close>

lemma scheduler_shape:
  "audioContextRef s \<Longrightarrow> scheduler b m now s = Some s' \<Longrightarrow>
   \<exists>n. s' = setTimeout_scheduler b m ((loop_body b m ^^ n) s)"
  by (auto simp: scheduler_def dest: scheduler_loop_iterates)

lemma tempo_ok_interval:
  "tempo_ok b \<Longrightarrow> js_div (Finite 60) b = NaN \<or> (\<exists>p. 0 < p \<and> js_div (Finite 60) b = Finite p)"
  by (cases b) (auto simp: tempo_ok_def in_tempo_range_def)

lemma loop_body_deadline_ok:
  "tempo_ok b \<Longrightarrow> deadline_ok d \<Longrightarrow> deadline_ok (js_add d (js_div (Finite 60) b))"
  using tempo_ok_interval[of b]
  by (cases d) (auto simp: deadline_ok_def)

lemma loop_iter_cursor_ok:
  assumes "tempo_ok b" "0 < m"
  shows "deadline_ok (nextNoteTimeRef s) \<Longrightarrow> currentBeatRef s < m \<Longrightarrow> currentBeat s < m \<Longrightarrow>
    deadline_ok (nextNoteTimeRef ((loop_body b m ^^ n) s)) \<and>
    currentBeatRef ((loop_body b m ^^ n) s) < m \<and> currentBeat ((loop_body b m ^^ n) s) < m"
  using assms by (induction n) (auto simp: loop_body_deadline_ok)

lemma wellformedD:
  assumes "wellformed s"
  shows "audioContextRef s" "volumeRef s = volume s" "voiceEnabledRef s = voiceEnabled s"
    "beatsPerMeasure s \<in> set meters" "currentBeatRef s < beatsPerMeasure s"
    "currentBeat s < beatsPerMeasure s" "tempo_ok (bpm s)"
    "deadline_ok (nextNoteTimeRef s)" "0 < nextTimerId s" "timers_ok s"
  using assms by (simp_all add: wellformed_def)

lemma meters_pos: "m \<in> set meters \<Longrightarrow> 0 < m"
  by (auto simp: meters_def)

lemma timers_ok_cases:
  assumes "timers_ok s"
  obtains (armed) i where "isPlaying s" "0 < i" "timerIdRef s = Some i"
      "timeouts s = [(i, bpm s, beatsPerMeasure s)]"
  | (idle) "\<not> isPlaying s" "timerIdRef s = None" "timeouts s = []"
  using assms by (cases "isPlaying s"; cases "timerIdRef s") (auto simp: timers_ok_def)

lemma wf_timer:
  assumes wf: "wellformed s" and "offered (TimerFire i) s" "step (TimerFire i) now s = Some s'"
  shows "wellformed s'"
proof -
  note w = wellformedD[OF wf]
  from w(10) assms(2) have pl: "isPlaying s" and to: "timeouts s = [(i, bpm s, beatsPerMeasure s)]"
    by (cases rule: timers_ok_cases; simp)+
  let ?c = "clearTimeout i s"
  from assms(3) to have "scheduler (bpm s) (beatsPerMeasure s) now ?c = Some s'" by simp
  moreover have "audioContextRef ?c" using w(1) by (simp add: clearTimeout_def)
  ultimately obtain n where
    s': "s' = setTimeout_scheduler (bpm s) (beatsPerMeasure s) ((loop_body (bpm s) (beatsPerMeasure s) ^^ n) ?c)"
    using scheduler_shape by blast
  have "deadline_ok (nextNoteTimeRef ?c)" "currentBeatRef ?c < beatsPerMeasure s" "currentBeat ?c < beatsPerMeasure s"
    using w by (simp_all add: clearTimeout_def)
  from loop_iter_cursor_ok[OF w(7) meters_pos[OF w(4)] this, of n]
  show ?thesis using w pl to unfolding s'
    by (simp add: wellformed_def setTimeout_scheduler_def timers_ok_def clearTimeout_def)
qed

lemma timers_ok_cong:
  "isPlaying s' = isPlaying s \<Longrightarrow> timerIdRef s' = timerIdRef s \<Longrightarrow> timeouts s' = timeouts s \<Longrightarrow>
   bpm s' = bpm s \<Longrightarrow> beatsPerMeasure s' = beatsPerMeasure s \<Longrightarrow> timers_ok s' = timers_ok s"
  by (cases "timerIdRef s") (simp_all add: timers_ok_def)

text \<open>
  The render after a handler, in a well-formed state: nothing but the sync of the
  refs when no dependency of the start/stop effect changed; else the cleanup and the
  effect, which restarts the scheduler or leaves the stopped state.
\<close>

lemma commit_eq:
  assumes wf: "wellformed s" and k: "refs_kept s new"
  shows "commit s new now =
     (if \<not> deps_changed s new then Some (synced new)
      else if isPlaying new
      then map_option (setTimeout_scheduler (bpm new) (beatsPerMeasure new))
             (scheduler_loop (bpm new) (beatsPerMeasure new) now (restart_state now new))
      else Some (stopped_state new))"
proof -
  note w = wellformedD[OF wf]
  have kk: "audioContextRef new" "timerIdRef new = timerIdRef s" "volumeRef new = volume s"
    "voiceEnabledRef new = voiceEnabled s" "timeouts new = timeouts s"
    using k w by (simp_all add: refs_kept_def)
  have sync: "(if voiceEnabled new \<noteq> voiceEnabled s then voiceEffect else id)
       ((if volume new \<noteq> volume s then volumeEffect else id) z) =
       z\<lparr>volumeRef := volume new, voiceEnabledRef := voiceEnabled new\<rparr>"
    if "volume z = volume new" "voiceEnabled z = voiceEnabled new"
       "volumeRef z = volume s" "voiceEnabledRef z = voiceEnabled s" for z
    using that by (simp add: voiceEffect_def volumeEffect_def)
  have clean: "startStopCleanup new = new\<lparr>timeouts := [], speechQueue := []\<rparr>"
    using w(10)
    by (cases rule: timers_ok_cases)
       (simp_all add: kk startStopCleanup_def speechCancel_def clearTimeout_def timerId_truthy_def)
  define x where "x = new\<lparr>timeouts := [], speechQueue := [],
       volumeRef := volume new, voiceEnabledRef := voiceEnabled new\<rparr>"
  have stopped: "effect_stopped x = stopped_state new"
    using w(10) unfolding x_def stopped_state_def
    by (cases rule: timers_ok_cases)
       (simp_all add: kk effect_stopped_def speechCancel_def clearTimeout_def timerId_truthy_def)
  have playing: "effect_playing now x =
      scheduler (bpm new) (beatsPerMeasure new) now (restart_state now new)"
    using kk(1) by (simp add: effect_playing_def x_def restart_state_def)
  have sched: "scheduler b m now (restart_state now new) =
      map_option (setTimeout_scheduler b m) (scheduler_loop b m now (restart_state now new))"
    for b m using kk(1) by (simp add: scheduler_def restart_state_def)
  show ?thesis
  proof (cases "deps_changed s new")
    case False
    then have "commit s new now = Some ((if voiceEnabled new \<noteq> voiceEnabled s then voiceEffect else id)
       ((if volume new \<noteq> volume s then volumeEffect else id) new))"
      by (auto simp: commit_def Let_def)
    also have "\<dots> = Some (synced new)"
      unfolding synced_def by (subst sync) (simp_all add: kk)
    finally show ?thesis using False by simp
  next
    case True
    have "(if voiceEnabled new \<noteq> voiceEnabled s then voiceEffect else id)
       ((if volume new \<noteq> volume s then volumeEffect else id) (startStopCleanup new)) = x"
      unfolding clean x_def by (subst sync) (simp_all add: kk)
    with True have "commit s new now = startStopEffect now x"
      by (auto simp: commit_def Let_def)
    also have "isPlaying x = isPlaying new" by (simp add: x_def)
    ultimately show ?thesis using True
      by (simp add: startStopEffect_def stopped playing sched)
  qed
qed

lemma commit_cases:
  assumes wf: "wellformed s" and k: "refs_kept s new" and r: "commit s new now = Some s'"
  obtains
    (same) "\<not> deps_changed s new" "s' = synced new"
  | (stop) "deps_changed s new" "\<not> isPlaying new" "s' = stopped_state new"
  | (start) y where "deps_changed s new" "isPlaying new"
      "scheduler_loop (bpm new) (beatsPerMeasure new) now (restart_state now new) = Some y"
      "s' = setTimeout_scheduler (bpm new) (beatsPerMeasure new) y"
  using r unfolding commit_eq[OF wf k] by (auto split: if_splits)

lemma restart_state_fields [simp]:
  "bpm (restart_state now new) = bpm new"
  "isPlaying (restart_state now new) = isPlaying new"
  "beatsPerMeasure (restart_state now new) = beatsPerMeasure new"
  "volume (restart_state now new) = volume new"
  "voiceEnabled (restart_state now new) = voiceEnabled new"
  "audioContextRef (restart_state now new) = audioContextRef new"
  "timerIdRef (restart_state now new) = timerIdRef new"
  "volumeRef (restart_state now new) = volume new"
  "voiceEnabledRef (restart_state now new) = voiceEnabled new"
  "timeouts (restart_state now new) = []"
  "nextTimerId (restart_state now new) = nextTimerId new"
  "speechQueue (restart_state now new) = []"
  "emitted (restart_state now new) = emitted new"
  "currentBeat (restart_state now new) = 0"
  "currentBeatRef (restart_state now new) = 0"
  "nextNoteTimeRef (restart_state now new) = Finite now"
  by (simp_all add: restart_state_def)

lemma wf_commit:
  assumes wf: "wellformed s" and k: "refs_kept s new"
    and t: "tempo_ok (bpm new)" and m: "beatsPerMeasure new \<in> set meters"
    and c: "currentBeat new < beatsPerMeasure new"
    and r: "commit s new now = Some s'"
  shows "wellformed s'"
  using wf k r
proof (cases rule: commit_cases)
  case same
  note w = wellformedD[OF wf]
  from same(1) have d: "bpm new = bpm s" "isPlaying new = isPlaying s"
      "beatsPerMeasure new = beatsPerMeasure s" by (simp_all add: deps_changed_def)
  have "timers_ok s' = timers_ok s" unfolding same(2)
    by (rule timers_ok_cong) (use k d in \<open>simp_all add: refs_kept_def synced_def\<close>)
  with w k t m c d show ?thesis unfolding same(2)
    by (simp add: wellformed_def refs_kept_def synced_def)
next
  case stop
  note w = wellformedD[OF wf]
  from w k t m c stop(2) meters_pos[OF m] show ?thesis unfolding stop(3)
    by (simp add: wellformed_def refs_kept_def timers_ok_def stopped_state_def)
next
  case (start y)
  note w = wellformedD[OF wf]
  let ?p = "restart_state now new"
  from start(3) obtain n where y: "y = (loop_body (bpm new) (beatsPerMeasure new) ^^ n) ?p"
    using scheduler_loop_iterates by blast
  have "deadline_ok (nextNoteTimeRef ?p)" "currentBeatRef ?p < beatsPerMeasure new"
      "currentBeat ?p < beatsPerMeasure new"
    using meters_pos[OF m] by (simp_all add: deadline_ok_def)
  from loop_iter_cursor_ok[OF t meters_pos[OF m] this, of n]
  show ?thesis using w k t m start(2) unfolding start(4) y
    by (simp add: wellformed_def refs_kept_def setTimeout_scheduler_def timers_ok_def)
qed

section \<open>Steps of the component\<close>

lemma handler_refs_kept: "refs_kept s (handler e s)"
  by (cases e) (simp_all add: refs_kept_def handleBpmChange_def)

lemma clamp_tempo_ok: "tempo_ok (Math_max (Finite 40) (Math_min (Finite 240) x))"
  by (cases x) (auto simp: tempo_ok_def in_tempo_range_def)

lemma handler_ok:
  assumes "wellformed s" "offered e s"
  shows "tempo_ok (bpm (handler e s))" "beatsPerMeasure (handler e s) \<in> set meters"
    "currentBeat (handler e s) < beatsPerMeasure (handler e s)"
  using wellformedD[OF assms(1)] assms(2)
  by (cases e; simp add: handleBpmChange_def clamp_tempo_ok meters_pos)+


lemma wf_step:
  assumes wf: "wellformed s" and o: "offered e s" and r: "step e now s = Some s'"
  shows "wellformed s'"
proof (cases e)
  case (TimerFire i)
  with wf o r show ?thesis using wf_timer by blast
next
  case SpeechDone
  with r have s': "s' = s\<lparr>speechQueue := tl (speechQueue s)\<rparr>" by simp
  have "timers_ok s' = timers_ok s" unfolding s' by (rule timers_ok_cong) simp_all
  with wf show ?thesis unfolding s' by (simp add: wellformed_def)
qed (use r in \<open>auto intro!: wf_commit[OF wf handler_refs_kept handler_ok[OF wf o]]\<close>)

lemma mount_state:
  "mount now = Some (initial\<lparr>audioContextRef := True\<rparr>)"
  by (simp add: mount_def initial_def volumeEffect_def voiceEffect_def startStopEffect_def
      effect_stopped_def timerId_truthy_def speechCancel_def)

lemma wf_mount: "mount now = Some s \<Longrightarrow> wellformed s"
  by (auto simp: mount_state initial_def wellformed_def meters_def tempo_ok_def in_tempo_range_def
      deadline_ok_def timers_ok_def)

lemma reachable_wellformed: "reachable s \<Longrightarrow> wellformed s"
  by (induction rule: reachable.induct) (auto intro: wf_mount wf_step)

lemma scheduler_loop_returns:
  assumes "tempo_ok b" "deadline_ok (nextNoteTimeRef s)"
  shows "\<exists>s'. scheduler_loop b m now s = Some s'"
proof (cases "nextNoteTimeRef s")
  case (Finite d)
  from tempo_ok_interval[OF assms(1)] show ?thesis
  proof
    assume n: "js_div (Finite 60) b = NaN"
    show ?thesis
      by (subst scheduler_loop.simps, subst scheduler_loop.simps) (simp add: Finite n)
  next
    assume "\<exists>p. 0 < p \<and> js_div (Finite 60) b = Finite p"
    then obtain p where "0 < p" "js_div (Finite 60) b = Finite p" by blast
    from scheduler_loop_finite[OF this Finite] show ?thesis by blast
  qed
next
  case NaN
  then show ?thesis by (subst scheduler_loop.simps) simp
qed (use assms(2) in \<open>simp_all add: deadline_ok_def\<close>)

lemma step_total:
  assumes wf: "wellformed s" and o: "offered e s"
  shows "\<exists>s'. step e now s = Some s'"
proof -
  note w = wellformedD[OF wf]
  have commit_total: "\<exists>s'. commit s new now = Some s'"
    if k: "refs_kept s new" and t: "tempo_ok (bpm new)" for new
  proof -
    have "\<exists>y. scheduler_loop (bpm new) (beatsPerMeasure new) now (restart_state now new) = Some y"
      by (rule scheduler_loop_returns) (simp_all add: t deadline_ok_def)
    then show ?thesis unfolding commit_eq[OF wf k] by auto
  qed
  show ?thesis
  proof (cases e)
    case (TimerFire i)
    from w(10) o TimerFire have to: "timeouts s = [(i, bpm s, beatsPerMeasure s)]"
      by (cases rule: timers_ok_cases) simp_all
    have "\<exists>y. scheduler_loop (bpm s) (beatsPerMeasure s) now (clearTimeout i s) = Some y"
      by (rule scheduler_loop_returns) (simp_all add: w clearTimeout_def)
    then show ?thesis using TimerFire to w(1) by (auto simp: scheduler_def clearTimeout_def)
  qed (use commit_total[OF handler_refs_kept handler_ok(1)[OF wf o]] in simp_all)
qed

lemma run_reachable: "reachable s \<Longrightarrow> run evs s = Some s' \<Longrightarrow> reachable s'"
proof (induction evs arbitrary: s)
  case Nil
  then show ?case by simp
next
  case (Cons a evs)
  obtain e now where a: "a = (e, now)" by (cases a)
  from Cons.prems(2) a obtain s1 where o: "offered e s" and s1: "step e now s = Some s1"
    and rest: "run evs s1 = Some s'"
    by (auto split: if_splits option.splits)
  from Cons.prems(1) o s1 have "reachable s1" by (rule reachable.stepped)
  from Cons.IH[OF this rest] show ?case .
qed

lemma session_run: "session evs s = Some s' \<Longrightarrow> run evs s = Some s'"
  by (induction evs s rule: session.induct) (auto split: if_splits option.splits)


lemma beat_of_cong:
  "audioContextRef s' = audioContextRef s \<Longrightarrow> volumeRef s' = volumeRef s \<Longrightarrow>
   voiceEnabledRef s' = voiceEnabledRef s \<Longrightarrow> beat_of s' = beat_of s"
  by (intro ext) (simp add: beat_of_def playTick_def speakBeatNumber_def)

lemma loop_body_emitted:
  "emitted (loop_body b m s) = emitted s @ [beat_of s (currentBeatRef s) (nextNoteTimeRef s)]"
  by (simp add: loop_body_def Let_def beat_of_def)

lemma loop_iter_emitted:
  "emitted ((loop_body b m ^^ n) s) =
   emitted s @ map (\<lambda>j. beat_of s (currentBeatRef ((loop_body b m ^^ j) s))
                                  (nextNoteTimeRef ((loop_body b m ^^ j) s))) [0..<n]"
proof (induction n)
  case 0
  show ?case by simp
next
  case (Suc n)
  have "beat_of ((loop_body b m ^^ n) s) = beat_of s"
    by (rule beat_of_cong) simp_all
  with Suc show ?case by (simp add: loop_body_emitted)
qed

lemma setTimeout_fields [simp]:
  "bpm (setTimeout_scheduler b m s) = bpm s"
  "isPlaying (setTimeout_scheduler b m s) = isPlaying s"
  "beatsPerMeasure (setTimeout_scheduler b m s) = beatsPerMeasure s"
  "volume (setTimeout_scheduler b m s) = volume s"
  "voiceEnabled (setTimeout_scheduler b m s) = voiceEnabled s"
  "audioContextRef (setTimeout_scheduler b m s) = audioContextRef s"
  "volumeRef (setTimeout_scheduler b m s) = volumeRef s"
  "voiceEnabledRef (setTimeout_scheduler b m s) = voiceEnabledRef s"
  "speechQueue (setTimeout_scheduler b m s) = speechQueue s"
  "emitted (setTimeout_scheduler b m s) = emitted s"
  "currentBeat (setTimeout_scheduler b m s) = currentBeat s"
  "currentBeatRef (setTimeout_scheduler b m s) = currentBeatRef s"
  "nextNoteTimeRef (setTimeout_scheduler b m s) = nextNoteTimeRef s"
  "timeouts (setTimeout_scheduler b m s) = timeouts s @ [(nextTimerId s, b, m)]"
  "timerIdRef (setTimeout_scheduler b m s) = Some (nextTimerId s)"
  "nextTimerId (setTimeout_scheduler b m s) = Suc (nextTimerId s)"
  by (simp_all add: setTimeout_scheduler_def)

lemma clearTimeout_fields [simp]:
  "bpm (clearTimeout i s) = bpm s"
  "isPlaying (clearTimeout i s) = isPlaying s"
  "beatsPerMeasure (clearTimeout i s) = beatsPerMeasure s"
  "volume (clearTimeout i s) = volume s"
  "voiceEnabled (clearTimeout i s) = voiceEnabled s"
  "audioContextRef (clearTimeout i s) = audioContextRef s"
  "volumeRef (clearTimeout i s) = volumeRef s"
  "voiceEnabledRef (clearTimeout i s) = voiceEnabledRef s"
  "speechQueue (clearTimeout i s) = speechQueue s"
  "emitted (clearTimeout i s) = emitted s"
  "currentBeat (clearTimeout i s) = currentBeat s"
  "currentBeatRef (clearTimeout i s) = currentBeatRef s"
  "nextNoteTimeRef (clearTimeout i s) = nextNoteTimeRef s"
  "timerIdRef (clearTimeout i s) = timerIdRef s"
  "nextTimerId (clearTimeout i s) = nextTimerId s"
  by (simp_all add: clearTimeout_def)

text \<open>
  The steps of a well-formed state are of two kinds: those that leave the log and the
  cursor alone or stop the metronome, and those that run the loop, from the current
  cursor (a timeout firing) or from the cursor \<open>(0, now)\<close> (the start/stop effect).
\<close>

lemma step_cases:
  assumes wf: "wellformed s" and o: "offered e s" and r: "step e now s = Some s'"
  obtains
    (quiet) "\<not> deps_changed s s'" "emitted s' = emitted s"
      "currentBeatRef s' = currentBeatRef s" "nextNoteTimeRef s' = nextNoteTimeRef s"
  | (stop) "deps_changed s s'" "\<not> isPlaying s'" "s' = stopped_state (handler e s)"
      "emitted s' = emitted s"
  | (poll) i y where "e = TimerFire i" "isPlaying s" "\<not> deps_changed s s'"
      "scheduler_loop (bpm s) (beatsPerMeasure s) now (clearTimeout i s) = Some y"
      "s' = setTimeout_scheduler (bpm s) (beatsPerMeasure s) y"
  | (restart) y where "deps_changed s s'" "isPlaying s'"
      "volume (handler e s) = volume s" "voiceEnabled (handler e s) = voiceEnabled s"
      "bpm s' = bpm (handler e s)" "beatsPerMeasure s' = beatsPerMeasure (handler e s)"
      "scheduler_loop (bpm s') (beatsPerMeasure s') now (restart_state now (handler e s)) = Some y"
      "s' = setTimeout_scheduler (bpm s') (beatsPerMeasure s') y"
proof -
  consider (timer) i where "e = TimerFire i" | (speech) "e = SpeechDone"
    | (ui) "step e now s = commit s (handler e s) now"
    by (cases e) auto
  then show ?thesis
  proof cases
    case (timer i)
    note w = wellformedD[OF wf]
    from w(10) o timer have pl: "isPlaying s" and to: "timeouts s = [(i, bpm s, beatsPerMeasure s)]"
      by (cases rule: timers_ok_cases; simp)+
    from r timer to w(1) obtain y where
      y: "scheduler_loop (bpm s) (beatsPerMeasure s) now (clearTimeout i s) = Some y"
      "s' = setTimeout_scheduler (bpm s) (beatsPerMeasure s) y"
      by (auto simp: scheduler_def)
    from scheduler_loop_iterates[OF y(1)] y(2) have "\<not> deps_changed s s'"
      by (auto simp: deps_changed_def)
    with timer pl y show ?thesis using poll by blast
  next
    case speech
    with r have "s' = s\<lparr>speechQueue := tl (speechQueue s)\<rparr>" by simp
    then show ?thesis using quiet by (simp add: deps_changed_def)
  next
    case ui
    let ?h = "handler e s"
    have k: "refs_kept s ?h" by (rule handler_refs_kept)
    have dc: "deps_changed s z = deps_changed s ?h"
      if "bpm z = bpm ?h" "isPlaying z = isPlaying ?h" "beatsPerMeasure z = beatsPerMeasure ?h" for z
      using that by (simp add: deps_changed_def)
    from r ui have "commit s ?h now = Some s'" by simp
    with wf k show ?thesis
    proof (cases rule: commit_cases)
      case same
      have a: "\<not> deps_changed s s'" using same(1) unfolding same(2)
        by (subst dc) (simp_all add: synced_def)
      have b: "emitted s' = emitted s" "currentBeatRef s' = currentBeatRef s"
          "nextNoteTimeRef s' = nextNoteTimeRef s"
        using k unfolding same(2) by (simp_all add: synced_def refs_kept_def)
      show ?thesis by (rule quiet[OF a b])
    next
      case stop
      have a: "deps_changed s s'" using stop(1) unfolding stop(3)
        by (subst dc) (simp_all add: stopped_state_def)
      have b: "\<not> isPlaying s'" "emitted s' = emitted s"
        using k stop(2) unfolding stop(3) by (simp_all add: stopped_state_def refs_kept_def)
      show ?thesis by (rule that(2)[OF a b(1) stop(3) b(2)])
    next
      case (start y)
      from scheduler_loop_iterates[OF start(3)] obtain n where
        y: "y = (loop_body (bpm ?h) (beatsPerMeasure ?h) ^^ n) (restart_state now ?h)" by blast
      have f: "bpm s' = bpm ?h" "isPlaying s' = isPlaying ?h" "beatsPerMeasure s' = beatsPerMeasure ?h"
        unfolding start(4) y by simp_all
      have a: "deps_changed s s'" using start(1) by (subst dc) (simp_all add: f)
      have v: "volume ?h = volume s" "voiceEnabled ?h = voiceEnabled s"
        using start(1) by (cases e; simp add: deps_changed_def handleBpmChange_def)+
      have p: "isPlaying s'" using start(2) f by simp
      have l: "scheduler_loop (bpm s') (beatsPerMeasure s') now (restart_state now ?h) = Some y"
        unfolding f(1,3) by (rule start(3))
      have q: "s' = setTimeout_scheduler (bpm s') (beatsPerMeasure s') y"
        unfolding f(1,3) by (rule start(4))
      show ?thesis by (rule restart[OF a p v f(1,3) l q])
    qed
  qed
qed

section \<open>Emitted beats\<close>

lemma cursor_loop_body: "cursor (loop_body b m s) = advance b m (cursor s)"
  by (simp add: cursor_def advance_def)

lemma cursor_loop_iter: "cursor ((loop_body b m ^^ n) s) = (advance b m ^^ n) (cursor s)"
  by (induction n) (simp_all add: cursor_loop_body)

lemma cursor_at_beat_of [simp]: "cursor_at (beat_of s k d) = (k, d)"
  by (simp add: cursor_at_def beat_of_def)

lemma loop_iter_cursors:
  "map cursor_at (drop (length (emitted s)) (emitted ((loop_body b m ^^ n) s))) =
   map (\<lambda>j. (advance b m ^^ j) (cursor s)) [0..<n]"
  using cursor_loop_iter[where b=b and m=m and s=s] by (simp add: loop_iter_emitted o_def cursor_def)

lemma beat_of_accent_ok: "audioContextRef s \<Longrightarrow> accent_ok (beat_of s k d)"
  by (simp add: accent_ok_def beat_of_def playTick_def speakBeatNumber_def)

lemma beat_of_settings:
  "wellformed s \<Longrightarrow> uses_settings (volume s) (voiceEnabled s) (beat_of s k d)"
  by (simp add: uses_settings_def beat_of_def playTick_def speakBeatNumber_def wellformed_def)

text \<open>The beats a step emits are logged with the refs of the state before the step.\<close>

lemma step_emits:
  assumes wf: "wellformed s" and o: "offered e s" and r: "step e now s = Some s'"
  shows "\<exists>new. emitted s' = emitted s @ new \<and> (\<forall>z\<in>set new. \<exists>k d. z = beat_of s k d)"
  using wf o r
proof (cases rule: step_cases)
  case quiet
  then show ?thesis by simp
next
  case stop
  then show ?thesis by simp
next
  case (poll i y)
  from scheduler_loop_iterates[OF poll(4)] obtain n where
    y: "y = (loop_body (bpm s) (beatsPerMeasure s) ^^ n) (clearTimeout i s)" by blast
  have "beat_of (clearTimeout i s) = beat_of s" by (rule beat_of_cong) simp_all
  then show ?thesis unfolding poll(5) y by (auto simp: loop_iter_emitted)
next
  case (restart y)
  let ?h = "handler e s"
  note w = wellformedD[OF wf]
  have k: "refs_kept s ?h" by (rule handler_refs_kept)
  from scheduler_loop_iterates[OF restart(7)] obtain n where
    y: "y = (loop_body (bpm s') (beatsPerMeasure s') ^^ n) (restart_state now ?h)" by blast
  have "beat_of (restart_state now ?h) = beat_of s"
    by (rule beat_of_cong) (use k w restart(3,4) in \<open>simp_all add: refs_kept_def\<close>)
  moreover have "emitted ?h = emitted s" using k by (simp add: refs_kept_def)
  ultimately show ?thesis by (subst restart(8)) (auto simp: y loop_iter_emitted)
qed

lemma reachable_accent_ok: "reachable s \<Longrightarrow> \<forall>z\<in>set (emitted s). accent_ok z"
proof (induction rule: reachable.induct)
  case (mounted now s)
  then show ?case by (auto simp: mount_state initial_def)
next
  case (stepped s e now s')
  from reachable_wellformed[OF stepped(1)] have wf: "wellformed s" .
  from step_emits[OF wf stepped(2,3)] obtain new where
    "emitted s' = emitted s @ new" "\<forall>z\<in>set new. \<exists>k d. z = beat_of s k d" by blast
  with stepped.IH wellformedD(1)[OF wf] show ?case
    by (auto simp: beat_of_accent_ok)
qed


lemma restart_loop_once:
  "scheduler_loop b m now (restart_state now h) =
   scheduler_loop b m now (loop_body b m (restart_state now h))"
  by (subst scheduler_loop.simps) simp

lemma funpow_Suc_first: "(f ^^ Suc n) x = (f ^^ n) (f x)"
  by (simp add: funpow_swap1)

text \<open>A restart emits beat \<open>0\<close> at once, with the clock reading as its deadline.\<close>

lemma restart_emits_first:
  assumes "scheduler_loop b m now (restart_state now h) = Some y"
  shows "\<exists>n. y = (loop_body b m ^^ Suc n) (restart_state now h)"
proof -
  from assms have "scheduler_loop b m now (loop_body b m (restart_state now h)) = Some y"
    by (simp add: restart_loop_once[symmetric])
  from scheduler_loop_iterates[OF this] show ?thesis by (simp add: funpow_swap1)
qed



lemma reachable_mounted: "reachable mounted"
  unfolding mounted_def by (rule reachable.mounted[OF mount_state[of 0]])

lemmas eval_defs =
  mounted_def initial_def commit_def deps_changed_def startStopCleanup_def startStopEffect_def
  effect_playing_def effect_stopped_def timerId_truthy_def speechCancel_def clearTimeout_def
  setTimeout_scheduler_def scheduler_def scheduler_loop.simps loop_body_def playTick_def
  speakBeatNumber_def volumeEffect_def voiceEffect_def handleBpmChange_def js_sub_def
  presets_def meters_def Let_def

lemma timer_step_shape:
  assumes wf: "wellformed s" and o: "offered (TimerFire i) s"
    and r: "step (TimerFire i) now s = Some s'"
  shows "\<exists>n. s' = setTimeout_scheduler (bpm s) (beatsPerMeasure s)
                 ((loop_body (bpm s) (beatsPerMeasure s) ^^ n) (clearTimeout i s))"
proof -
  note w = wellformedD[OF wf]
  from w(10) o have to: "timeouts s = [(i, bpm s, beatsPerMeasure s)]"
    by (cases rule: timers_ok_cases; simp)
  from r to have "scheduler (bpm s) (beatsPerMeasure s) now (clearTimeout i s) = Some s'"
    by simp
  moreover have "audioContextRef (clearTimeout i s)" using w(1) by simp
  ultimately show ?thesis using scheduler_shape by blast
qed

lemma step_settings:
  assumes wf: "wellformed s" and o: "offered e s" and r: "step e now s = Some s'"
  shows "volume s' = volume (handler e s)" "voiceEnabled s' = voiceEnabled (handler e s)"
proof -
  consider (timer) i where "e = TimerFire i" | (speech) "e = SpeechDone"
    | (ui) "step e now s = commit s (handler e s) now"
    by (cases e) auto
  then have "volume s' = volume (handler e s) \<and> voiceEnabled s' = voiceEnabled (handler e s)"
  proof cases
    case (timer i)
    from o r have "offered (TimerFire i) s" "step (TimerFire i) now s = Some s'"
      unfolding timer by this+
    from timer_step_shape[OF wf this] obtain n where
      "s' = setTimeout_scheduler (bpm s) (beatsPerMeasure s)
                 ((loop_body (bpm s) (beatsPerMeasure s) ^^ n) (clearTimeout i s))" by blast
    then show ?thesis by (simp add: timer)
  next
    case speech
    with r show ?thesis by auto
  next
    case ui
    with r have "commit s (handler e s) now = Some s'" by simp
    with wf handler_refs_kept show ?thesis
    proof (cases rule: commit_cases)
      case (start y)
      from scheduler_loop_iterates[OF start(3)] show ?thesis unfolding start(4) by auto
    qed (simp_all add: synced_def stopped_state_def)
  qed
  then show "volume s' = volume (handler e s)" "voiceEnabled s' = voiceEnabled (handler e s)"
    by simp_all
qed

text \<open>
  The tempo after a step is the one its handler stored, and the handle of every armed
  timeout is older than the next handle the window gives out.
\<close>

lemma step_bpm:
  assumes wf: "wellformed s" and o: "offered e s" and r: "step e now s = Some s'"
  shows "bpm s' = bpm (handler e s)"
proof -
  consider (timer) i where "e = TimerFire i" | (speech) "e = SpeechDone"
    | (ui) "step e now s = commit s (handler e s) now"
    by (cases e) auto
  then show ?thesis
  proof cases
    case (timer i)
    from o r have "offered (TimerFire i) s" "step (TimerFire i) now s = Some s'"
      unfolding timer by this+
    from timer_step_shape[OF wf this] obtain n where
      "s' = setTimeout_scheduler (bpm s) (beatsPerMeasure s)
                 ((loop_body (bpm s) (beatsPerMeasure s) ^^ n) (clearTimeout i s))" by blast
    then show ?thesis by (simp add: timer)
  next
    case speech
    with r show ?thesis by auto
  next
    case ui
    with r have "commit s (handler e s) now = Some s'" by simp
    with wf handler_refs_kept show ?thesis
    proof (cases rule: commit_cases)
      case (start y)
      from scheduler_loop_iterates[OF start(3)] show ?thesis unfolding start(4) by auto
    qed (simp_all add: synced_def stopped_state_def)
  qed
qed



lemma run_append: "run evs s = Some s1 \<Longrightarrow> run evs' s1 = Some s2 \<Longrightarrow> run (evs @ evs') s = Some s2"
  by (induction evs s rule: run.induct) (auto split: if_splits option.splits)

section \<open>Sessions\<close>

lemma iterates_0 [simp]: "iterates b m c 0 = []"
  by (simp add: iterates_def)

lemma iterates_Suc: "iterates b m c (Suc n) = c # iterates b m (advance b m c) n"
  by (simp add: iterates_def upt_conv_Cons map_Suc_upt[symmetric] funpow_swap1 del: upt_Suc)

lemma iterates_add:
  "iterates b m c (n1 + n2) = iterates b m c n1 @ iterates b m ((advance b m ^^ n1) c) n2"
  by (induction n1 arbitrary: c) (simp_all add: iterates_Suc funpow_swap1)

lemma length_iterates [simp]: "length (iterates b m c n) = n"
  by (simp add: iterates_def)

lemma step_session:
  assumes wf: "wellformed s" and o: "offered e s" and r: "step e now s = Some s'"
    and d: "\<not> deps_changed s s'"
  shows "\<exists>new. emitted s' = emitted s @ new \<and>
           map cursor_at new = iterates (bpm s) (beatsPerMeasure s) (cursor s) (length new) \<and>
           cursor s' = (advance (bpm s) (beatsPerMeasure s) ^^ length new) (cursor s)"
  using wf o r
proof (cases rule: step_cases)
  case quiet
  then show ?thesis by (simp add: cursor_def)
next
  case (poll i y)
  let ?x = "clearTimeout i s"
  from scheduler_loop_iterates[OF poll(4)] obtain n where
    y: "y = (loop_body (bpm s) (beatsPerMeasure s) ^^ n) ?x" by blast
  define new where "new = drop (length (emitted ?x)) (emitted y)"
  have e: "emitted y = emitted ?x @ new" unfolding new_def y by (simp add: loop_iter_emitted)
  have c: "map cursor_at new = iterates (bpm s) (beatsPerMeasure s) (cursor ?x) n"
    unfolding new_def y iterates_def by (rule loop_iter_cursors)
  then have l: "length new = n" by (metis length_map length_iterates)
  have x: "cursor ?x = cursor s" by (simp add: cursor_def)
  have "cursor s' = cursor y" unfolding poll(5) by (simp add: cursor_def)
  also have "\<dots> = (advance (bpm s) (beatsPerMeasure s) ^^ n) (cursor s)"
    unfolding y cursor_loop_iter x ..
  finally show ?thesis using e c l x unfolding poll(5) by simp
qed (use d in simp_all)

lemma session_cursors:
  "wellformed s \<Longrightarrow> session evs s = Some s' \<Longrightarrow>
   \<exists>new. emitted s' = emitted s @ new \<and>
     map cursor_at new = iterates (bpm s) (beatsPerMeasure s) (cursor s) (length new) \<and>
     cursor s' = (advance (bpm s) (beatsPerMeasure s) ^^ length new) (cursor s) \<and>
     \<not> deps_changed s s' \<and> wellformed s'"
proof (induction evs arbitrary: s)
  case Nil
  then show ?case by (simp add: deps_changed_def)
next
  case (Cons a evs)
  obtain e now where a: "a = (e, now)" by (cases a)
  from Cons.prems(2) a obtain s1 where o: "offered e s" and s1: "step e now s = Some s1"
    and d: "\<not> deps_changed s s1" and rest: "session evs s1 = Some s'"
    by (auto split: if_splits option.splits)
  have wf1: "wellformed s1" by (rule wf_step[OF Cons.prems(1) o s1])
  from step_session[OF Cons.prems(1) o s1 d] obtain new1 where
    n1: "emitted s1 = emitted s @ new1"
      "map cursor_at new1 = iterates (bpm s) (beatsPerMeasure s) (cursor s) (length new1)"
      "cursor s1 = (advance (bpm s) (beatsPerMeasure s) ^^ length new1) (cursor s)" by blast
  from Cons.IH[OF wf1 rest] obtain new2 where
    n2: "emitted s' = emitted s1 @ new2"
      "map cursor_at new2 = iterates (bpm s1) (beatsPerMeasure s1) (cursor s1) (length new2)"
      "cursor s' = (advance (bpm s1) (beatsPerMeasure s1) ^^ length new2) (cursor s1)"
      "\<not> deps_changed s1 s'" "wellformed s'" by blast
  from d have same: "bpm s1 = bpm s" "beatsPerMeasure s1 = beatsPerMeasure s"
    by (simp_all add: deps_changed_def)
  have "emitted s' = emitted s @ (new1 @ new2)" using n1(1) n2(1) by simp
  moreover have "map cursor_at (new1 @ new2) =
      iterates (bpm s) (beatsPerMeasure s) (cursor s) (length (new1 @ new2))"
    using n1(2,3) n2(2) by (simp add: same iterates_add)
  moreover have "cursor s' = (advance (bpm s) (beatsPerMeasure s) ^^ length (new1 @ new2)) (cursor s)"
  proof -
    have "length (new1 @ new2) = length new2 + length new1" by simp
    then show ?thesis using n1(3) n2(3) by (simp only: funpow_add o_apply same)
  qed
  moreover have "\<not> deps_changed s s'" using d n2(4) by (simp add: deps_changed_def)
  ultimately show ?case using n2(5) by blast
qed

lemma not_lt_advance:
  "tempo_ok b \<Longrightarrow> deadline_ok d \<Longrightarrow> \<not> js_lt (js_add d (js_div (Finite 60) b)) d"
  using tempo_ok_interval[of b] by (cases d) (auto simp: deadline_ok_def)

lemma advancing_iterates:
  "tempo_ok b \<Longrightarrow> deadline_ok (snd c) \<Longrightarrow> advancing m (iterates b m c n @ [(advance b m ^^ n) c])"
proof (induction n arbitrary: c)
  case 0
  then show ?case by simp
next
  case (Suc n)
  have d: "deadline_ok (snd (advance b m c))"
    using Suc.prems by (simp add: advance_def loop_body_deadline_ok)
  from Suc.IH[OF Suc.prems(1) d]
  have "advancing m (iterates b m (advance b m c) n @ [(advance b m ^^ n) (advance b m c)])" .
  moreover have "hd (iterates b m (advance b m c) n @ [(advance b m ^^ n) (advance b m c)]) = advance b m c"
    by (cases n) (simp_all add: iterates_Suc)
  ultimately have "advancing m (c # iterates b m (advance b m c) n @ [(advance b m ^^ n) (advance b m c)])"
    using Suc.prems by (cases "iterates b m (advance b m c) n @ [(advance b m ^^ n) (advance b m c)]")
      (auto simp: advance_def not_lt_advance)
  then show ?case by (simp add: iterates_Suc funpow_swap1)
qed

lemma hd_iterates: "hd (iterates b m c n @ [(advance b m ^^ n) c]) = c"
  by (cases n) (simp_all add: iterates_Suc)


lemma loop_iter_finite:
  assumes "in_tempo_range b" "is_finite (nextNoteTimeRef x)"
  shows "is_finite (nextNoteTimeRef ((loop_body b m ^^ n) x))"
proof -
  from assms(1) obtain t where t: "b = Finite t" "40 \<le> t"
    by (cases b) (auto simp: in_tempo_range_def)
  from assms(2) obtain d where d: "nextNoteTimeRef x = Finite d"
    by (cases "nextNoteTimeRef x") (auto simp: is_finite_def)
  have "js_div (Finite 60) b = Finite (60 / t)" using t by simp
  from loop_iter_deadline[OF d this] show ?thesis by (simp add: is_finite_def)
qed

lemma reachable_deadline_finite:
  "reachable s \<Longrightarrow> isPlaying s \<Longrightarrow> in_tempo_range (bpm s) \<Longrightarrow> is_finite (nextNoteTimeRef s)"
proof (induction rule: reachable.induct)
  case (mounted now s)
  then show ?case by (auto simp: mount_state initial_def)
next
  case (stepped s e now s')
  from reachable_wellformed[OF stepped(1)] have wf: "wellformed s" .
  from wf stepped(2,3) show ?case
  proof (cases rule: step_cases)
    case quiet
    with stepped show ?thesis by (simp add: deps_changed_def)
  next
    case stop
    with stepped.prems show ?thesis by simp
  next
    case (poll i y)
    from poll(3) stepped.prems have "in_tempo_range (bpm s)" by (simp add: deps_changed_def)
    with stepped.IH poll(2) have f: "is_finite (nextNoteTimeRef (clearTimeout i s))" by simp
    from scheduler_loop_iterates[OF poll(4)] obtain n where
      "y = (loop_body (bpm s) (beatsPerMeasure s) ^^ n) (clearTimeout i s)" by blast
    with loop_iter_finite[OF \<open>in_tempo_range (bpm s)\<close> f] show ?thesis
      unfolding poll(5) by simp
  next
    case (restart y)
    have f: "is_finite (nextNoteTimeRef (restart_state now (handler e s)))"
      by (simp add: is_finite_def)
    from scheduler_loop_iterates[OF restart(7)] obtain n where
      "y = (loop_body (bpm s') (beatsPerMeasure s') ^^ n) (restart_state now (handler e s))"
      by blast
    with loop_iter_finite[OF stepped.prems(2) f] show ?thesis
      by (subst restart(8)) simp
  qed
qed

lemma finite_iterates:
  assumes "in_tempo_range b"
  shows "is_finite (snd c) \<Longrightarrow> list_all (is_finite \<circ> snd) (iterates b m c n @ [(advance b m ^^ n) c])"
proof (induction n arbitrary: c)
  case 0
  then show ?case by simp
next
  case (Suc n)
  from assms obtain t where t: "b = Finite t" "40 \<le> t"
    by (cases b) (auto simp: in_tempo_range_def)
  have "is_finite (snd (advance b m c))"
    using Suc.prems t by (cases "snd c") (simp_all add: advance_def is_finite_def)
  from Suc.IH[OF this] Suc.prems show ?case
    by (simp add: iterates_Suc funpow_swap1)
qed

section \<open>Restarts\<close>




section \<open>The first beat after a reset\<close>

lemma starts_measure_simps [simp]:
  "starts_measure []" "starts_measure (b # bs) = (published b = 0 \<and> tickAccent b)"
  "new \<noteq> [] \<Longrightarrow> starts_measure (new @ later) = starts_measure new"
  by (cases new; simp add: starts_measure_def)+

lemma loop_iter_first:
  assumes "currentBeatRef x = 0"
  shows "\<exists>new. emitted ((loop_body b m ^^ n) x) = emitted x @ new \<and> starts_measure new \<and>
           (new = [] \<longrightarrow> currentBeatRef ((loop_body b m ^^ n) x) = 0)"
proof (cases n)
  case 0
  with assms show ?thesis by simp
next
  case (Suc k)
  have "emitted ((loop_body b m ^^ n) x) =
        emitted x @ beat_of x 0 (nextNoteTimeRef x) #
          map (\<lambda>j. beat_of x (currentBeatRef ((loop_body b m ^^ j) x))
                               (nextNoteTimeRef ((loop_body b m ^^ j) x))) [1..<n]"
    unfolding loop_iter_emitted Suc using assms by (simp add: upt_conv_Cons del: upt_Suc)
  then show ?thesis by (simp add: beat_of_def)
qed

lemma step_first_beat:
  assumes wf: "wellformed s" and o: "offered e s" and r: "step e now s = Some s'"
    and z: "currentBeatRef s = 0"
  shows "\<exists>new. emitted s' = emitted s @ new \<and> starts_measure new \<and>
           (new = [] \<longrightarrow> currentBeatRef s' = 0)"
  using wf o r
proof (cases rule: step_cases)
  case quiet
  with z show ?thesis by simp
next
  case stop
  then show ?thesis by (simp add: stopped_state_def)
next
  case (poll i y)
  from scheduler_loop_iterates[OF poll(4)] obtain n where
    y: "y = (loop_body (bpm s) (beatsPerMeasure s) ^^ n) (clearTimeout i s)" by blast
  from loop_iter_first[where x="clearTimeout i s" and b="bpm s" and m="beatsPerMeasure s" and n=n] z
  show ?thesis unfolding poll(5) y by simp
next
  case (restart y)
  let ?h = "handler e s"
  from scheduler_loop_iterates[OF restart(7)] obtain n where
    y: "y = (loop_body (bpm s') (beatsPerMeasure s') ^^ n) (restart_state now ?h)" by blast
  have "emitted ?h = emitted s" using handler_refs_kept[of s e] by (simp add: refs_kept_def)
  with loop_iter_first[where x="restart_state now ?h" and b="bpm s'" and m="beatsPerMeasure s'" and n=n]
  show ?thesis by (subst (1 2) restart(8)) (simp add: y)
qed

lemma run_emitted:
  "wellformed s \<Longrightarrow> run evs s = Some s' \<Longrightarrow> \<exists>new. emitted s' = emitted s @ new"
proof (induction evs arbitrary: s)
  case Nil
  then show ?case by simp
next
  case (Cons a evs)
  obtain e now where a: "a = (e, now)" by (cases a)
  from Cons.prems(2) a obtain s1 where o: "offered e s" and s1: "step e now s = Some s1"
    and rest: "run evs s1 = Some s'"
    by (auto split: if_splits option.splits)
  from step_emits[OF Cons.prems(1) o s1] obtain new1 where "emitted s1 = emitted s @ new1"
    by blast
  moreover from Cons.IH[OF wf_step[OF Cons.prems(1) o s1] rest] obtain new2 where
    "emitted s' = emitted s1 @ new2" by blast
  ultimately show ?case by simp
qed

lemma run_first_beat:
  "wellformed s \<Longrightarrow> currentBeatRef s = 0 \<Longrightarrow> run evs s = Some s' \<Longrightarrow>
   \<exists>new. emitted s' = emitted s @ new \<and> starts_measure new"
proof (induction evs arbitrary: s)
  case Nil
  then show ?case by simp
next
  case (Cons a evs)
  obtain e now where a: "a = (e, now)" by (cases a)
  from Cons.prems(3) a obtain s1 where o: "offered e s" and s1: "step e now s = Some s1"
    and rest: "run evs s1 = Some s'"
    by (auto split: if_splits option.splits)
  have wf1: "wellformed s1" by (rule wf_step[OF Cons.prems(1) o s1])
  from step_first_beat[OF Cons.prems(1) o s1 Cons.prems(2)] obtain new1 where
    n1: "emitted s1 = emitted s @ new1" "starts_measure new1"
      "new1 = [] \<longrightarrow> currentBeatRef s1 = 0" by blast
  show ?case
  proof (cases "new1 = []")
    case True
    with n1(3) Cons.IH[OF wf1 _ rest] n1(1) show ?thesis by simp
  next
    case False
    from run_emitted[OF wf1 rest] obtain new2 where "emitted s' = emitted s1 @ new2" by blast
    with n1 False show ?thesis by simp
  qed
qed

section \<open>Clamping of the tempo\<close>

lemma reachable_armed_tempo:
  assumes "reachable s" and "(i, b, m) \<in> set (timeouts s)"
  shows "b = bpm s \<and> m = beatsPerMeasure s \<and> (b = NaN \<or> in_tempo_range b)"
proof -
  note w = wellformedD[OF reachable_wellformed[OF assms(1)]]
  from w(10) assms(2) have "b = bpm s" "m = beatsPerMeasure s"
    by (cases rule: timers_ok_cases; simp)+
  with w(7) show ?thesis by (simp add: tempo_ok_def)
qed

lemma handleBpmChange_in_range:
  "newBpm \<noteq> NaN \<Longrightarrow> in_tempo_range (bpm (handleBpmChange newBpm s))"
  by (cases newBpm) (auto simp: handleBpmChange_def in_tempo_range_def)

lemma handler_in_range:
  assumes "in_tempo_range (bpm s)" and "offered e s" and "e \<noteq> SliderInput NaN"
  shows "in_tempo_range (bpm (handler e s))"
proof -
  from assms(1) obtain t where t: "bpm s = Finite t"
    by (cases "bpm s") (simp_all add: in_tempo_range_def)
  show ?thesis
  proof (cases e)
    case (ClickPreset v)
    with assms(2) have "v \<noteq> NaN" by (auto simp: presets_def)
    with ClickPreset show ?thesis by (simp add: handleBpmChange_in_range)
  qed (use assms(1,3) t in \<open>simp_all add: handleBpmChange_in_range js_sub_def\<close>)
qed

lemma run_in_range:
  "wellformed s \<Longrightarrow> in_tempo_range (bpm s) \<Longrightarrow> list_all (\<lambda>x. fst x \<noteq> SliderInput NaN) evs \<Longrightarrow>
   run evs s = Some s' \<Longrightarrow> in_tempo_range (bpm s')"
proof (induction evs arbitrary: s)
  case Nil
  then show ?case by simp
next
  case (Cons a evs)
  obtain e now where a: "a = (e, now)" by (cases a)
  from Cons.prems(4) a obtain s1 where o: "offered e s" and s1: "step e now s = Some s1"
    and rest: "run evs s1 = Some s'"
    by (auto split: if_splits option.splits)
  from Cons.prems(3) a have ne: "e \<noteq> SliderInput NaN" and l: "list_all (\<lambda>x. fst x \<noteq> SliderInput NaN) evs"
    by simp_all
  have "in_tempo_range (bpm s1)"
    unfolding step_bpm[OF Cons.prems(1) o s1] by (rule handler_in_range[OF Cons.prems(2) o ne])
  from Cons.IH[OF wf_step[OF Cons.prems(1) o s1] this l rest] show ?case .
qed

text \<open>
  The clamp hands \<^verbatim>\<open>NaN\<close> on: \<^verbatim>\<open>Math.min(240, NaN)\<close> and \<^verbatim>\<open>Math.max(40, NaN)\<close> are
  \<^verbatim>\<open>NaN\<close>. No call site of \<^verbatim>\<open>handleBpmChange\<close> passes it: the buttons pass the stored
  tempo minus or plus one and the presets, and the slider passes \<^verbatim>\<open>parseInt\<close> of the
  value of a range input, which is the decimal form of a number.
\<close>

lemma handleBpmChange_NaN: "bpm (handleBpmChange NaN s) = NaN"
  by (simp add: handleBpmChange_def)

text \<open>
  C8: for every number passed to \<^verbatim>\<open>handleBpmChange\<close> (every value of the type other
  than \<^verbatim>\<open>NaN\<close>, which is not a number: the infinities and the values far out of range
  included) the stored tempo lies in the closed range \<open>[40, 240]\<close>. And the scheduler
  never observes a tempo out of range: after every run of the page from its first
  render in which the slider delivers numbers, the stored tempo lies in \<open>[40, 240]\<close>,
  and the tempo every armed scheduler holds is the stored one.
\<close>

theorem handleBpmChange_clamps:
  "(newBpm \<noteq> NaN \<longrightarrow> in_tempo_range (bpm (handleBpmChange newBpm s0))) \<and>
   (list_all (\<lambda>x. fst x \<noteq> SliderInput NaN) evs \<and> run evs mounted = Some s \<longrightarrow>
      in_tempo_range (bpm s) \<and> list_all (\<lambda>x. fst (snd x) = bpm s) (timeouts s))"
proof -
  have a: "in_tempo_range (bpm (handleBpmChange newBpm s0))" if "newBpm \<noteq> NaN"
    using that by (rule handleBpmChange_in_range)
  have b: "in_tempo_range (bpm s) \<and> list_all (\<lambda>x. fst (snd x) = bpm s) (timeouts s)"
    if l: "list_all (\<lambda>x. fst x \<noteq> SliderInput NaN) evs" and r: "run evs mounted = Some s"
  proof -
    have m: "in_tempo_range (bpm mounted)" by (simp add: mounted_def initial_def in_tempo_range_def)
    have "in_tempo_range (bpm s)"
      by (rule run_in_range[OF reachable_wellformed[OF reachable_mounted] m l r])
    moreover have "fst (snd x) = bpm s" if "x \<in> set (timeouts s)" for x
      using reachable_armed_tempo[OF run_reachable[OF reachable_mounted r], of "fst x" "fst (snd x)" "snd (snd x)"] that
      by simp
    ultimately show ?thesis by (simp add: list_all_iff)
  qed
  from a b show ?thesis by blast
qed

theorem handleBpmChange_clamps_witness:
  "\<exists>s. Finite 300 \<noteq> NaN \<and> in_tempo_range (bpm (handleBpmChange (Finite 300) initial)) \<and>
     bpm (handleBpmChange (Finite 300) initial) = Finite 240 \<and>
     bpm (handleBpmChange NegInfinity initial) = Finite 40 \<and>
     list_all (\<lambda>x. fst x \<noteq> SliderInput NaN)
       [(SliderInput (Finite 300), 0), (ClickPlayPause, 0), (ClickPlus, 1 / 100)] \<and>
     run [(SliderInput (Finite 300), 0), (ClickPlayPause, 0), (ClickPlus, 1 / 100)] mounted = Some s \<and>
     timeouts s = [(1, Finite 240, 4)] \<and> bpm s = Finite 240 \<and>
     in_tempo_range (bpm s) \<and> list_all (\<lambda>x. fst (snd x) = bpm s) (timeouts s)"
proof -
  let ?evs = "[(SliderInput (Finite 300), 0), (ClickPlayPause, 0), (ClickPlus, 1 / 100)]"
  have "map_option (\<lambda>s. (timeouts s, bpm s)) (run ?evs mounted) =
        Some ([(1, Finite 240, 4)], Finite 240)"
    by (simp add: eval_defs)
  then obtain s where s: "run ?evs mounted = Some s" "timeouts s = [(1, Finite 240, 4)]"
    "bpm s = Finite 240"
    by auto
  have l: "list_all (\<lambda>x. fst x \<noteq> SliderInput NaN) ?evs" by simp
  note c = handleBpmChange_clamps[of "Finite 300" initial ?evs s]
  from c have a: "in_tempo_range (bpm (handleBpmChange (Finite 300) initial))" by simp
  from c l s(1) have b: "in_tempo_range (bpm s)" "list_all (\<lambda>x. fst (snd x) = bpm s) (timeouts s)"
    by blast+
  have "Finite 300 \<noteq> NaN" "bpm (handleBpmChange (Finite 300) initial) = Finite 240"
    "bpm (handleBpmChange NegInfinity initial) = Finite 40"
    by (simp_all add: handleBpmChange_def)
  with a b l s show ?thesis
    by (intro exI[of _ s] conjI) assumption+
qed

section \<open>Termination of the catch-up loop\<close>

lemma reachable_deadline_not_NegInfinity:
  "reachable s \<Longrightarrow> nextNoteTimeRef s \<noteq> NegInfinity"
  using wellformedD(8)[OF reachable_wellformed, of s]
  by (cases "nextNoteTimeRef s") (simp_all add: deadline_ok_def)

text \<open>From a deadline of \<^verbatim>\<open>-Infinity\<close> the loop does not return: adding to it leaves it.\<close>

lemma scheduler_loop_needs_deadline:
  assumes "scheduler_loop b m now s = Some y" and "js_div (Finite 60) b = Finite p"
  shows "nextNoteTimeRef s \<noteq> NegInfinity"
  using assms
proof (induction rule: scheduler_loop.raw_induct[rotated, consumes 1])
  case (1 f b m now s y)
  show ?case
  proof
    assume n: "nextNoteTimeRef s = NegInfinity"
    with 1(2) have "f b m now (loop_body b m s) = Some y" by simp
    from 1(1)[OF this 1(3)] show False using n 1(3) by simp
  qed
qed



section \<open>Range of the published beat index\<close>

text \<open>
  C10: in every reachable state the published beat index \<^verbatim>\<open>currentBeat\<close> is below
  \<^verbatim>\<open>beatsPerMeasure\<close>, and so is \<^verbatim>\<open>currentBeatRef.current\<close>, the only value other than
  \<open>0\<close> that is ever written to it.
\<close>

theorem published_beat_in_range:
  "reachable s \<Longrightarrow> currentBeat s < beatsPerMeasure s \<and> currentBeatRef s < beatsPerMeasure s"
  using wellformedD(5,6)[OF reachable_wellformed] by blast

theorem published_beat_in_range_witness:
  "\<exists>s. run [(ClickMeter 3, 0), (ClickPlayPause, 0), (TimerFire 1, 45 / 100),
            (TimerFire 2, 95 / 100)] mounted = Some s \<and>
       reachable s \<and> currentBeat s = 2 \<and> beatsPerMeasure s = 3 \<and> currentBeatRef s = 0 \<and>
       currentBeat s < beatsPerMeasure s \<and> currentBeatRef s < beatsPerMeasure s"
proof -
  let ?evs = "[(ClickMeter 3, 0), (ClickPlayPause, 0), (TimerFire 1, 45 / 100),
            (TimerFire 2, 95 / 100)]"
  have "map_option (\<lambda>s. (currentBeat s, beatsPerMeasure s, currentBeatRef s)) (run ?evs mounted)
        = Some (2, 3, 0)"
    by (simp add: eval_defs)
  then obtain s where s: "run ?evs mounted = Some s" "currentBeat s = 2" "beatsPerMeasure s = 3"
    "currentBeatRef s = 0" by auto
  have r: "reachable s" by (rule run_reachable[OF reachable_mounted s(1)])
  from published_beat_in_range[OF r] s r show ?thesis by blast
qed

section \<open>Stopping\<close>

text \<open>
  C5: stopping (the play/pause button while playing) returns; afterwards the
  metronome is not playing, the window holds no timeout of the scheduler and the
  handle is \<^verbatim>\<open>null\<close>, so no poll can fire; the speech queue is empty, emptied by
  \<^verbatim>\<open>speechSynthesis.cancel()\<close>; the published beat index and the cursor's index are
  \<open>0\<close>; and the log is unchanged: no pulse and no announcement was emitted.
\<close>

theorem stop_halts_and_resets:
  assumes "reachable s" and "isPlaying s"
  shows "\<exists>s'. step ClickPlayPause now s = Some s' \<and> \<not> isPlaying s' \<and>
           timeouts s' = [] \<and> timerIdRef s' = None \<and> (\<forall>i. \<not> offered (TimerFire i) s') \<and>
           speechQueue s' = [] \<and> currentBeat s' = 0 \<and> currentBeatRef s' = 0 \<and>
           emitted s' = emitted s"
proof -
  let ?h = "handler ClickPlayPause s"
  from assms(1) have wf: "wellformed s" by (rule reachable_wellformed)
  have "deps_changed s ?h" "\<not> isPlaying ?h" using assms(2) by (simp_all add: deps_changed_def)
  then have "step ClickPlayPause now s = Some (stopped_state ?h)"
    using commit_eq[OF wf handler_refs_kept, of ClickPlayPause now] by simp
  then show ?thesis using assms(2) by (simp add: stopped_state_def)
qed

theorem stop_halts_and_resets_witness:
  "\<exists>s s'. run [(ClickVoice, 0), (ClickPlayPause, 0)] mounted = Some s \<and> reachable s \<and>
     isPlaying s \<and> length (timeouts s) = 1 \<and> length (speechQueue s) = 1 \<and>
     step ClickPlayPause 1 s = Some s' \<and> \<not> isPlaying s' \<and>
     timeouts s' = [] \<and> timerIdRef s' = None \<and> speechQueue s' = [] \<and>
     currentBeat s' = 0 \<and> currentBeatRef s' = 0 \<and> emitted s' = emitted s"
proof -
  let ?evs = "[(ClickVoice, 0), (ClickPlayPause, 0)]"
  have "map_option (\<lambda>s. (isPlaying s, length (timeouts s), length (speechQueue s)))
          (run ?evs mounted) = Some (True, 1, 1)"
    by (simp add: eval_defs)
  then obtain s where s: "run ?evs mounted = Some s" "isPlaying s" "length (timeouts s) = 1"
    "length (speechQueue s) = 1" by auto
  have r: "reachable s" by (rule run_reachable[OF reachable_mounted s(1)])
  from stop_halts_and_resets[OF r s(2), of 1] obtain s' where
    "step ClickPlayPause 1 s = Some s'" "\<not> isPlaying s'" "timeouts s' = []"
    "timerIdRef s' = None" "speechQueue s' = []" "currentBeat s' = 0" "currentBeatRef s' = 0"
    "emitted s' = emitted s" by blast
  with s r show ?thesis
    by (intro exI[of _ s] exI[of _ s'] conjI) assumption+
qed

section \<open>The accent\<close>

text \<open>
  C4: for every beat emitted on the way to a reachable state, the flag passed to
  \<^verbatim>\<open>playTick\<close> is true exactly if the beat's index is \<open>0\<close>; the tone is the one for
  that flag (1000 Hz against 800 Hz), and the announcer, when it speaks, raises the
  pitch (1.3 against 1.0) exactly for index \<open>0\<close>.
\<close>

theorem accent_invariant:
  "reachable s \<Longrightarrow> z \<in> set (emitted s) \<Longrightarrow> accent_ok z"
  using reachable_accent_ok by blast

theorem accent_invariant_witness:
  "\<exists>s. run [(ClickVoice, 0), (ClickPlayPause, 0), (TimerFire 1, 45 / 100)] mounted = Some s \<and>
     reachable s \<and> map published (emitted s) = [0, 1] \<and>
     map tickAccent (emitted s) = [True, False] \<and>
     emitted s ! 0 \<in> set (emitted s) \<and> accent_ok (emitted s ! 0) \<and>
     emitted s ! 1 \<in> set (emitted s) \<and> accent_ok (emitted s ! 1)"
proof -
  let ?evs = "[(ClickVoice, 0), (ClickPlayPause, 0), (TimerFire 1, 45 / 100)]"
  have "map_option (\<lambda>s. (map published (emitted s), map tickAccent (emitted s)))
          (run ?evs mounted) = Some ([0, 1], [True, False])"
    by (simp add: eval_defs)
  then obtain s where s: "run ?evs mounted = Some s" "map published (emitted s) = [0, 1]"
    "map tickAccent (emitted s) = [True, False]" by auto
  have "length (emitted s) = length (map published (emitted s))" by simp
  also have "\<dots> = 2" unfolding s(2) by simp
  finally have m: "emitted s ! 0 \<in> set (emitted s)" "emitted s ! 1 \<in> set (emitted s)"
    by simp_all
  have r: "reachable s" by (rule run_reachable[OF reachable_mounted s(1)])
  from accent_invariant[OF r m(1)] accent_invariant[OF r m(2)] s r m show ?thesis
    by (intro exI[of _ s] conjI) assumption+
qed

section \<open>Volume and voice at emission\<close>

text \<open>
  C7: a step from a reachable state returns, leaves the beats already logged as
  they are, and every beat it emits has the gain and the utterance volume of the
  \<^verbatim>\<open>volume\<close> the state held before the step, and an utterance exactly if
  \<^verbatim>\<open>voiceEnabled\<close> held there. Those are the values last set: only the volume input
  and the voice toggle change them, a step that changes one emits nothing, and after
  every step the refs the emitters read hold the state's values.
\<close>

theorem settings_read_at_emission:
  assumes "reachable s" and "offered e s"
  shows "\<exists>s' new. step e now s = Some s' \<and> emitted s' = emitted s @ new \<and>
           (\<forall>z\<in>set new. uses_settings (volume s) (voiceEnabled s) z) \<and>
           volume s' = (case e of VolumeInput v \<Rightarrow> v | _ \<Rightarrow> volume s) \<and>
           voiceEnabled s' = (if e = ClickVoice then \<not> voiceEnabled s else voiceEnabled s) \<and>
           volumeRef s' = volume s' \<and> voiceEnabledRef s' = voiceEnabled s' \<and>
           (new \<noteq> [] \<longrightarrow> volume s' = volume s \<and> voiceEnabled s' = voiceEnabled s)"
proof -
  from assms(1) have wf: "wellformed s" by (rule reachable_wellformed)
  from step_total[OF wf assms(2)] obtain s' where s': "step e now s = Some s'" by blast
  from step_emits[OF wf assms(2) s'] obtain new where
    new: "emitted s' = emitted s @ new" "\<forall>z\<in>set new. \<exists>k d. z = beat_of s k d" by blast
  have u: "\<forall>z\<in>set new. uses_settings (volume s) (voiceEnabled s) z"
    using new(2) beat_of_settings[OF wf] by auto
  note st = step_settings[OF wf assms(2) s']
  have v: "volume s' = (case e of VolumeInput v \<Rightarrow> v | _ \<Rightarrow> volume s)"
    unfolding st by (cases e) (simp_all add: handleBpmChange_def)
  have e: "voiceEnabled s' = (if e = ClickVoice then \<not> voiceEnabled s else voiceEnabled s)"
    unfolding st by (cases e) (simp_all add: handleBpmChange_def)
  have wf': "wellformed s'" by (rule wf_step[OF wf assms(2) s'])
  have q: "volume s' = volume s \<and> voiceEnabled s' = voiceEnabled s" if "new \<noteq> []"
    using wf assms(2) s'
  proof (cases rule: step_cases)
    case quiet
    with new(1) that show ?thesis by simp
  next
    case stop
    with new(1) that show ?thesis by simp
  next
    case (poll i y)
    then show ?thesis unfolding st by simp
  next
    case (restart y)
    then show ?thesis unfolding st by simp
  qed
  from s' new(1) u v e wellformedD(2,3)[OF wf'] q show ?thesis by blast
qed

theorem settings_read_at_emission_witness:
  "\<exists>s s' new. run [(ClickPlayPause, 0), (VolumeInput (Finite (8 / 10)), 2 / 10),
                    (ClickVoice, 3 / 10)] mounted = Some s \<and>
     reachable s \<and> offered (TimerFire 1) s \<and> volume s = Finite (8 / 10) \<and> voiceEnabled s \<and>
     map (map_option gain \<circ> ticked) (emitted s) = [Some (Finite (1 / 2))] \<and>
     map spoken (emitted s) = [None] \<and>
     step (TimerFire 1) (45 / 100) s = Some s' \<and> emitted s' = emitted s @ new \<and>
     new \<noteq> [] \<and> list_all (uses_settings (Finite (8 / 10)) True) new"
proof -
  let ?evs = "[(ClickPlayPause, 0), (VolumeInput (Finite (8 / 10)), 2 / 10), (ClickVoice, 3 / 10)]"
  have "map_option (\<lambda>s. (map fst (timeouts s), volume s, voiceEnabled s,
           map (map_option gain \<circ> ticked) (emitted s), map spoken (emitted s)))
          (run ?evs mounted)
        = Some ([1], Finite (8 / 10), True, [Some (Finite (1 / 2))], [None])"
    by (simp add: eval_defs)
  then obtain s where s: "run ?evs mounted = Some s" "map fst (timeouts s) = [1]"
    "volume s = Finite (8 / 10)" "voiceEnabled s"
    "map (map_option gain \<circ> ticked) (emitted s) = [Some (Finite (1 / 2))]"
    "map spoken (emitted s) = [None]" by auto
  have o: "offered (TimerFire 1) s" using s(2) by (simp flip: set_map)
  have r: "reachable s" by (rule run_reachable[OF reachable_mounted s(1)])
  from settings_read_at_emission[OF r o, of "45 / 100"] obtain s' new where
    n: "step (TimerFire 1) (45 / 100) s = Some s'" "emitted s' = emitted s @ new"
       "\<forall>z\<in>set new. uses_settings (volume s) (voiceEnabled s) z" by blast
  have "map_option (\<lambda>s. length (emitted s)) (run (?evs @ [(TimerFire 1, 45 / 100)]) mounted) = Some 2"
    by (simp add: eval_defs)
  moreover have "run (?evs @ [(TimerFire 1, 45 / 100)]) mounted = Some s'"
    by (rule run_append[OF s(1)]) (simp only: run.simps o n(1) if_True option.case)
  ultimately have "length (emitted s') = 2" by simp
  moreover have "length (emitted s) = length (map spoken (emitted s))" by simp
  ultimately have "new \<noteq> []" using n(2) unfolding s(6) by auto
  moreover have "list_all (uses_settings (Finite (8 / 10)) True) new"
    using n(3) s(3,4) by (simp add: list_all_iff)
  ultimately show ?thesis using n(1,2) s r o
    by (intro exI[of _ s] exI[of _ s'] exI[of _ new] conjI) assumption+
qed

section \<open>The cursor within a session\<close>

text \<open>
  C3, as the spec has it: within the life of one running session, from a start to
  the stop that ends it, the deadline of the next beat never decreases and each new
  index is the previous one plus one modulo the meter. A change of tempo while
  running lies within such a session, and there it does not hold: the start/stop
  effect depends on \<^verbatim>\<open>bpm\<close> and restarts the cursor. With meter 4 and tempo 120,
  after beats 0 and 1 the cursor is \<open>(2, 1)\<close>; setting the tempo to 240 at the clock
  reading 0.6, the metronome playing throughout, emits a beat of index 0 (after
  index 1) with the deadline 0.6 and leaves the cursor at \<open>(1, 0.85)\<close>, before the
  deadline 1 computed earlier.
\<close>

theorem tempo_change_resets_cursor:
  "map_option (\<lambda>s. (isPlaying s, map cursor_at (emitted s), cursor s))
     (run [(ClickPlayPause, 0), (TimerFire 1, 45 / 100)] mounted) =
     Some (True, [(0, Finite 0), (1, Finite (1 / 2))], (2, Finite 1)) \<and>
   map_option (\<lambda>s. (isPlaying s, map cursor_at (emitted s), cursor s))
     (run [(ClickPlayPause, 0), (TimerFire 1, 45 / 100), (SliderInput (Finite 240), 6 / 10)]
        mounted) =
     Some (True, [(0, Finite 0), (1, Finite (1 / 2)), (0, Finite (6 / 10))],
           (1, Finite (17 / 20))) \<and>
   \<not> advancing 4 [(0, Finite 0), (1, Finite (1 / 2)), (0, Finite (6 / 10)), (1, Finite (17 / 20))] \<and>
   (0 :: nat) \<noteq> (1 + 1) mod 4 \<and> js_lt (Finite (6 / 10)) (Finite 1) \<and>
   js_lt (Finite (17 / 20)) (Finite 1)"
  by (simp add: eval_defs cursor_def cursor_at_def)

text \<open>
  C3, amended: over a run in which no step changes \<^verbatim>\<open>isPlaying\<close>, \<^verbatim>\<open>bpm\<close> or
  \<^verbatim>\<open>beatsPerMeasure\<close> (a session of the model: the stretch between two runs of the
  start/stop effect), the cursors of the beats emitted, followed by the cursor the
  run ends with, start at the cursor the run began with and advance: each index is
  the previous one plus one modulo the meter, and no deadline is less than the one
  before. While playing with a tempo in \<open>[40, 240]\<close> every one of these deadlines is
  finite, so the deadlines are non-decreasing reals.
\<close>

theorem cursor_advances:
  assumes "reachable s" and "session evs s = Some s'"
  shows "\<exists>new. emitted s' = emitted s @ new \<and>
           hd (map cursor_at new @ [cursor s']) = cursor s \<and>
           advancing (beatsPerMeasure s) (map cursor_at new @ [cursor s']) \<and>
           (isPlaying s \<and> in_tempo_range (bpm s) \<longrightarrow>
              list_all (is_finite \<circ> snd) (map cursor_at new @ [cursor s']))"
proof -
  from assms(1) have wf: "wellformed s" by (rule reachable_wellformed)
  note w = wellformedD[OF wf]
  from session_cursors[OF wf assms(2)] obtain new where
    n: "emitted s' = emitted s @ new"
       "map cursor_at new = iterates (bpm s) (beatsPerMeasure s) (cursor s) (length new)"
       "cursor s' = (advance (bpm s) (beatsPerMeasure s) ^^ length new) (cursor s)" by blast
  have d: "deadline_ok (snd (cursor s))" using w(8) by (simp add: cursor_def)
  have "hd (map cursor_at new @ [cursor s']) = cursor s"
    unfolding n(2,3) by (rule hd_iterates)
  moreover have "advancing (beatsPerMeasure s) (map cursor_at new @ [cursor s'])"
    unfolding n(2,3) by (rule advancing_iterates[OF w(7) d])
  moreover have "list_all (is_finite \<circ> snd) (map cursor_at new @ [cursor s'])"
    if "isPlaying s \<and> in_tempo_range (bpm s)"
  proof -
    from reachable_deadline_finite[OF assms(1)] that have "is_finite (snd (cursor s))"
      by (simp add: cursor_def)
    from finite_iterates[OF _ this] that show ?thesis unfolding n(2,3) by blast
  qed
  ultimately show ?thesis using n(1) by blast
qed

theorem cursor_advances_witness:
  "\<exists>s s' new. run [(ClickPlayPause, 0)] mounted = Some s \<and> reachable s \<and>
     session [(TimerFire 1, 45 / 100), (VolumeInput (Finite (8 / 10)), 1 / 2),
              (TimerFire 2, 145 / 100)] s = Some s' \<and>
     cursor s = (1, Finite (1 / 2)) \<and> beatsPerMeasure s = 4 \<and>
     isPlaying s \<and> in_tempo_range (bpm s) \<and>
     emitted s' = emitted s @ new \<and>
     map cursor_at new @ [cursor s'] =
       [(1, Finite (1 / 2)), (2, Finite 1), (3, Finite (3 / 2)), (0, Finite 2)] \<and>
     hd (map cursor_at new @ [cursor s']) = cursor s \<and>
     advancing (beatsPerMeasure s) (map cursor_at new @ [cursor s']) \<and>
     list_all (is_finite \<circ> snd) (map cursor_at new @ [cursor s'])"
proof -
  let ?ses = "[(TimerFire 1, 45 / 100), (VolumeInput (Finite (8 / 10)), 1 / 2),
              (TimerFire 2, 145 / 100)]"
  have "map_option (\<lambda>s. (cursor s, beatsPerMeasure s, isPlaying s, bpm s, length (emitted s),
            map_option (\<lambda>s'. (map cursor_at (emitted s'), cursor s')) (session ?ses s)))
          (run [(ClickPlayPause, 0)] mounted) =
        Some ((1, Finite (1 / 2)), 4, True, Finite 120, 1,
              Some ([(0, Finite 0), (1, Finite (1 / 2)), (2, Finite 1), (3, Finite (3 / 2))],
                    (0, Finite 2)))"
    by (simp add: eval_defs cursor_def cursor_at_def)
  then obtain s s' where s: "run [(ClickPlayPause, 0)] mounted = Some s"
    "cursor s = (1, Finite (1 / 2))" "beatsPerMeasure s = 4" "isPlaying s" "bpm s = Finite 120"
    "length (emitted s) = 1" "session ?ses s = Some s'"
    "map cursor_at (emitted s') = [(0, Finite 0), (1, Finite (1 / 2)), (2, Finite 1), (3, Finite (3 / 2))]"
    "cursor s' = (0, Finite 2)"
    by auto
  have t: "in_tempo_range (bpm s)" by (simp add: s(5) in_tempo_range_def)
  have r: "reachable s" by (rule run_reachable[OF reachable_mounted s(1)])
  from cursor_advances[OF r s(7)] s(4) t obtain new where
    n: "emitted s' = emitted s @ new" "hd (map cursor_at new @ [cursor s']) = cursor s"
       "advancing (beatsPerMeasure s) (map cursor_at new @ [cursor s'])"
       "list_all (is_finite \<circ> snd) (map cursor_at new @ [cursor s'])" by blast
  have "map cursor_at new = drop (length (emitted s)) (map cursor_at (emitted s'))"
    unfolding n(1) by simp
  then have "map cursor_at new @ [cursor s'] =
       [(1, Finite (1 / 2)), (2, Finite 1), (3, Finite (3 / 2)), (0, Finite 2)]"
    unfolding s(6,8,9) by simp
  with s r t n show ?thesis
    by (intro exI[of _ s] exI[of _ s'] exI[of _ new] conjI) assumption+
qed

section \<open>The beat train after a start\<close>


lemma next_deadline_real:
  assumes "t \<noteq> 0"
  shows "(next_deadline (Finite t) ^^ j) (Finite c) = Finite (c + real j * (60 / t))"
  using assms by (induction j) (simp_all add: next_deadline_def field_simps)


lemma loop_double_frame [simp]:
  "audioContextRef (loop_body_double b m s) = audioContextRef s"
  "volumeRef (loop_body_double b m s) = volumeRef s"
  "voiceEnabledRef (loop_body_double b m s) = voiceEnabledRef s"
  "currentBeatRef (loop_body_double b m s) = (currentBeatRef s + 1) mod m"
  "nextNoteTimeRef (loop_body_double b m s) = next_deadline_double b (nextNoteTimeRef s)"
  by (simp_all add: loop_body_double_def)








section \<open>A tempo change while running\<close>




section \<open>A change of meter\<close>

text \<open>
  C6: in every reachable state, at any beat index, running or not, pressing the
  button of a meter other than the current one returns and sets the meter. If the
  metronome is playing, the step itself restarts the cursor and emits a beat of
  index 0, accented, with the clock reading as its deadline; if not, nothing is
  emitted and the cursor's index is 0. In both cases, whatever run follows, the
  first beat emitted after the change, if any, has index 0 and is accented.
\<close>

theorem meter_change_resets:
  assumes "reachable s" and "beats \<in> set meters" and "beats \<noteq> beatsPerMeasure s"
  shows "\<exists>s'. step (ClickMeter beats) now s = Some s' \<and> beatsPerMeasure s' = beats \<and>
           (if isPlaying s
            then \<exists>b bs. emitted s' = emitted s @ b # bs \<and> published b = 0 \<and> tickAccent b \<and>
                        due b = Finite now
            else emitted s' = emitted s \<and> currentBeatRef s' = 0) \<and>
           (\<forall>evs s''. run evs s' = Some s'' \<longrightarrow>
              (\<exists>new. emitted s'' = emitted s @ new \<and> starts_measure new))"
proof -
  let ?e = "ClickMeter beats"
  let ?h = "handler ?e s"
  from assms(1) have wf: "wellformed s" by (rule reachable_wellformed)
  have o: "offered ?e s" using assms(2) by simp
  from step_total[OF wf o] obtain s' where st: "step ?e now s = Some s'" by blast
  have wf': "wellformed s'" by (rule wf_step[OF wf o st])
  have k: "refs_kept s ?h" by (rule handler_refs_kept)
  have eh: "emitted ?h = emitted s" using k by (simp add: refs_kept_def)
  have d: "deps_changed s ?h" using assms(3) by (simp add: deps_changed_def)
  from st have c: "commit s ?h now = Some s'" by simp
  have "beatsPerMeasure s' = beats \<and>
     (if isPlaying s
      then \<exists>b bs. emitted s' = emitted s @ b # bs \<and> published b = 0 \<and> tickAccent b \<and>
                  due b = Finite now
      else emitted s' = emitted s \<and> currentBeatRef s' = 0)"
    using wf k c
  proof (cases rule: commit_cases)
    case same
    with d show ?thesis by simp
  next
    case stop
    then show ?thesis using eh by (simp add: stopped_state_def)
  next
    case (start y)
    from restart_emits_first[OF start(3)] obtain n where
      y: "y = (loop_body (bpm ?h) (beatsPerMeasure ?h) ^^ Suc n) (restart_state now ?h)"
      by blast
    have "emitted s' = emitted s @ beat_of (restart_state now ?h) 0 (Finite now) #
        map (\<lambda>j. beat_of (restart_state now ?h)
               (currentBeatRef ((loop_body (bpm ?h) (beatsPerMeasure ?h) ^^ j) (restart_state now ?h)))
               (nextNoteTimeRef ((loop_body (bpm ?h) (beatsPerMeasure ?h) ^^ j) (restart_state now ?h))))
          [1..<Suc n]"
      unfolding start(4) y setTimeout_fields loop_iter_emitted
      by (simp add: upt_conv_Cons eh del: upt_Suc funpow.simps)
    moreover have "beatsPerMeasure s' = beats" unfolding start(4) y by simp
    ultimately show ?thesis using start(2) by (auto simp: beat_of_def)
  qed
  moreover have "\<exists>new. emitted s'' = emitted s @ new \<and> starts_measure new"
    if run: "run evs s' = Some s''" for evs s''
  proof (cases "isPlaying s")
    case True
    with calculation obtain b bs where
      b: "emitted s' = emitted s @ b # bs" "published b = 0" "tickAccent b" by auto
    from run_emitted[OF wf' run] obtain later where "emitted s'' = emitted s' @ later" by blast
    with b show ?thesis by simp
  next
    case False
    with calculation have "emitted s' = emitted s" "currentBeatRef s' = 0" by simp_all
    with run_first_beat[OF wf' _ run] show ?thesis by simp
  qed
  ultimately show ?thesis using st by blast
qed


theorem meter_change_resets_witness:
  "\<exists>s s'. run [(ClickPlayPause, 0), (TimerFire 1, 45 / 100), (TimerFire 2, 95 / 100)] mounted
        = Some s \<and>
     reachable s \<and> 3 \<in> set meters \<and> 3 \<noteq> beatsPerMeasure s \<and> isPlaying s \<and>
     currentBeatRef s = 3 \<and>
     step (ClickMeter 3) (12 / 10) s = Some s' \<and> beatsPerMeasure s' = 3 \<and>
     (\<exists>b bs. emitted s' = emitted s @ b # bs \<and> published b = 0 \<and> tickAccent b \<and>
             due b = Finite (12 / 10)) \<and>
     (\<exists>new. emitted s' = emitted s @ new \<and> starts_measure new)"
proof -
  let ?evs = "[(ClickPlayPause, 0), (TimerFire 1, 45 / 100), (TimerFire 2, 95 / 100)]"
  have "map_option (\<lambda>s. (isPlaying s, beatsPerMeasure s, currentBeatRef s)) (run ?evs mounted) =
        Some (True, 4, 3)"
    by (simp add: eval_defs)
  then obtain s where s: "run ?evs mounted = Some s" "isPlaying s" "beatsPerMeasure s = 4"
    "currentBeatRef s = 3" by auto
  have r: "reachable s" by (rule run_reachable[OF reachable_mounted s(1)])
  have m: "3 \<in> set meters" by (simp add: meters_def)
  have n: "3 \<noteq> beatsPerMeasure s" by (simp add: s(3))
  from meter_change_resets[OF r m n, of "12 / 10"] obtain s' where
    x: "step (ClickMeter 3) (12 / 10) s = Some s' \<and> beatsPerMeasure s' = 3 \<and>
           (if isPlaying s
            then \<exists>b bs. emitted s' = emitted s @ b # bs \<and> published b = 0 \<and> tickAccent b \<and>
                        due b = Finite (12 / 10)
            else emitted s' = emitted s \<and> currentBeatRef s' = 0) \<and>
           (\<forall>evs s''. run evs s' = Some s'' \<longrightarrow>
              (\<exists>new. emitted s'' = emitted s @ new \<and> starts_measure new))" ..
  then have a: "step (ClickMeter 3) (12 / 10) s = Some s'" "beatsPerMeasure s' = 3"
    and b: "\<exists>b bs. emitted s' = emitted s @ b # bs \<and> published b = 0 \<and> tickAccent b \<and>
                        due b = Finite (12 / 10)"
    and c: "\<forall>evs s''. run evs s' = Some s'' \<longrightarrow>
              (\<exists>new. emitted s'' = emitted s @ new \<and> starts_measure new)"
    using s(2) by simp_all
  have d: "\<exists>new. emitted s' = emitted s @ new \<and> starts_measure new"
    using c[rule_format, of "[]" s'] by simp
  from s(1) r m n s(2,4) a b d show ?thesis
    by (intro exI[of _ s] exI[of _ s'] conjI) assumption+
qed

end
